theory Spec2Isabelle
  imports Main "HOL-Library.Char_ord"
begin

section \<open>The working tree and file changes (file-operations.ts)\<close>

subsection \<open>Paths, as the \<open>path\<close> module of Node.js treats them on POSIX\<close>

text \<open>
  \<open>segments\<close> splits a path at every \<open>/\<close>. \<open>normalizeString\<close> is the loop of the library
  function of that name, over the segments: an empty segment and \<open>.\<close> are dropped, \<open>..\<close>
  removes the segment before it, unless there is none or it is \<open>..\<close> itself; then \<open>..\<close> is
  kept in a relative path and dropped in an absolute one.
\<close>

fun segments :: "string \<Rightarrow> string list" where
  "segments [] = [[]]"
| "segments (c # cs) =
     (if c = CHR ''/'' then [] # segments cs
      else (let ss = segments cs in (c # hd ss) # tl ss))"

definition normalize_step :: "bool \<Rightarrow> string list \<Rightarrow> string \<Rightarrow> string list" where
  "normalize_step allowAboveRoot res seg =
     (if seg = [] \<or> seg = ''.'' then res
      else if seg = ''..'' then
        (if res \<noteq> [] \<and> last res \<noteq> ''..'' then butlast res
         else if allowAboveRoot then res @ [''..''] else res)
      else res @ [seg])"

definition normalizeString :: "string \<Rightarrow> bool \<Rightarrow> string list" where
  "normalizeString p allowAboveRoot = foldl (normalize_step allowAboveRoot) [] (segments p)"

fun join_segments :: "string list \<Rightarrow> string" where
  "join_segments [] = []"
| "join_segments [s] = s"
| "join_segments (s # ss) = s @ ''/'' @ join_segments ss"

definition normalize :: "string \<Rightarrow> string" where
  "normalize p =
     (if p = [] then ''.''
      else
        (let isAbsolute = (hd p = CHR ''/'');
             trailingSeparator = (last p = CHR ''/'');
             q = join_segments (normalizeString p (\<not> isAbsolute))
         in if q = [] then (if isAbsolute then ''/'' else if trailingSeparator then ''./'' else ''.'')
            else (if isAbsolute then ''/'' else []) @ q @ (if trailingSeparator then ''/'' else [])))"

text \<open>\<open>path.join\<close>: the arguments that are not empty, joined by \<open>/\<close> and normalized.\<close>

definition path_join :: "string list \<Rightarrow> string" where
  "path_join args =
     (let joined = join_segments (filter (\<lambda>arg. arg \<noteq> []) args)
      in if joined = [] then ''.'' else normalize joined)"

text \<open>
  \<open>path.dirname\<close> scans the path from its end down to its second character: it skips the
  separators at the end and the last segment, and cuts the path at the separator before it.
\<close>

definition dirname :: "string \<Rightarrow> string" where
  "dirname p =
     (if p = [] then ''.''
      else
        (let hasRoot = (hd p = CHR ''/'');
             scanned = dropWhile (\<lambda>c. c \<noteq> CHR ''/'') (dropWhile (\<lambda>c. c = CHR ''/'') (rev (tl p)))
         in if scanned = [] then (if hasRoot then ''/'' else ''.'')
            else if hasRoot \<and> length scanned = 1 then ''//''
            else hd p # rev (tl scanned)))"

subsection \<open>The file system\<close>

text \<open>
  A file system without links, with names that differ when their characters differ. A
  location is the list of the names that lead to it from the root; the file system maps
  a location to the file or the directory that is there, and the root is a directory.
  A relative path starts at the working directory of the process. Every call may
  also fail for a reason outside this model (the permissions, the device): \<open>io_faults\<close>
  gives the error, if any, of each call of the run, counted from 0; such a call changes
  nothing.
\<close>

datatype node = File string | Dir

datatype io_error =
    ENOENT string
  | ENOTDIR string
  | EEXIST string
  | EISDIR string
  | EIO string

record fs =
  cwd :: "string list"
  nodes :: "string list \<rightharpoonup> node"
  io_faults :: "nat \<Rightarrow> io_error option"
  io_calls :: nat

definition walk :: "string list \<Rightarrow> string \<Rightarrow> string list" where
  "walk loc seg =
     (if seg = [] \<or> seg = ''.'' then loc
      else if seg = ''..'' then butlast loc
      else loc @ [seg])"

definition locate :: "fs \<Rightarrow> string \<Rightarrow> string list" where
  "locate t p = foldl walk (if p \<noteq> [] \<and> hd p = CHR ''/'' then [] else cwd t) (segments p)"

definition node_at :: "fs \<Rightarrow> string list \<Rightarrow> node option" where
  "node_at t k = (if k = [] then Some Dir else nodes t k)"

definition is_file :: "node option \<Rightarrow> bool" where
  "is_file n = (case n of Some (File c) \<Rightarrow> True | _ \<Rightarrow> False)"

definition trailing_slash :: "string \<Rightarrow> bool" where
  "trailing_slash p = (p \<noteq> [] \<and> last p = CHR ''/'')"

text \<open>The directories on the way to a location, the location itself last.\<close>

fun dirs_to :: "string list \<Rightarrow> string list list" where
  "dirs_to [] = []"
| "dirs_to (x # xs) = [x] # map ((#) x) (dirs_to xs)"

text \<open>
  Looking a path up fails at the first name on the way that is not a directory: with
  ENOENT when nothing is there, with ENOTDIR when a file is.
\<close>

definition blocked :: "fs \<Rightarrow> string \<Rightarrow> string list \<Rightarrow> io_error option" where
  "blocked t p k =
     (case filter (\<lambda>q. node_at t q \<noteq> Some Dir) (butlast (dirs_to k)) of
        [] \<Rightarrow> None
      | q # _ \<Rightarrow> Some (if node_at t q = None then ENOENT p else ENOTDIR p))"

definition syscall :: "(fs \<Rightarrow> (io_error + unit) \<times> fs) \<Rightarrow> fs \<Rightarrow> (io_error + unit) \<times> fs" where
  "syscall f t =
     (case io_faults t (io_calls t) of
        Some e \<Rightarrow> (Inl e, t\<lparr>io_calls := Suc (io_calls t)\<rparr>)
      | None \<Rightarrow> f (t\<lparr>io_calls := Suc (io_calls t)\<rparr>))"

text \<open>
  \<open>fs.mkdir\<close> with \<open>recursive: true\<close> creates the directories that are missing on the way
  and the directory itself; it is rejected when a file is in the way.
\<close>

definition fs_mkdir :: "string \<Rightarrow> fs \<Rightarrow> (io_error + unit) \<times> fs" where
  "fs_mkdir p =
     syscall (\<lambda>t.
       (let k = locate t p
        in case filter (\<lambda>q. is_file (node_at t q)) (dirs_to k) of
             q # _ \<Rightarrow> (Inl (if q = k then EEXIST p else ENOTDIR p), t)
           | [] \<Rightarrow> (Inr (), t\<lparr>nodes := foldl (\<lambda>m q. m(q \<mapsto> Dir)) (nodes t) (dirs_to k)\<rparr>)))"

text \<open>\<open>fs.writeFile\<close> creates the file or replaces its content; it creates no directory.\<close>

definition fs_writeFile :: "string \<Rightarrow> string \<Rightarrow> fs \<Rightarrow> (io_error + unit) \<times> fs" where
  "fs_writeFile p c =
     syscall (\<lambda>t.
       (let k = locate t p
        in case blocked t p k of
             Some e \<Rightarrow> (Inl e, t)
           | None \<Rightarrow>
               (case node_at t k of
                  Some Dir \<Rightarrow> (Inl (EISDIR p), t)
                | Some (File _) \<Rightarrow>
                    if trailing_slash p then (Inl (ENOTDIR p), t)
                    else (Inr (), t\<lparr>nodes := (nodes t)(k \<mapsto> File c)\<rparr>)
                | None \<Rightarrow>
                    if trailing_slash p then (Inl (EISDIR p), t)
                    else (Inr (), t\<lparr>nodes := (nodes t)(k \<mapsto> File c)\<rparr>))))"

text \<open>\<open>fs.unlink\<close> removes a file; it is rejected when there is none, or a directory.\<close>

definition fs_unlink :: "string \<Rightarrow> fs \<Rightarrow> (io_error + unit) \<times> fs" where
  "fs_unlink p =
     syscall (\<lambda>t.
       (let k = locate t p
        in case blocked t p k of
             Some e \<Rightarrow> (Inl e, t)
           | None \<Rightarrow>
               (case node_at t k of
                  None \<Rightarrow> (Inl (ENOENT p), t)
                | Some Dir \<Rightarrow> (Inl (EISDIR p), t)
                | Some (File _) \<Rightarrow>
                    if trailing_slash p then (Inl (ENOTDIR p), t)
                    else (Inr (), t\<lparr>nodes := (nodes t)(k := None)\<rparr>))))"

subsection \<open>FileOperations\<close>

datatype action = Create | Modify | Delete

record FileChange =
  filePath :: string
  action :: action
  content :: "string option"
  originalContent :: "string option"

text \<open>
  \<open>writeFile\<close> and \<open>deleteFile\<close> of the class, with its field \<open>repoPath\<close> as first argument.
  A rejected call ends the function with its error.
\<close>

definition writeFile :: "string \<Rightarrow> string \<Rightarrow> string \<Rightarrow> fs \<Rightarrow> (io_error + unit) \<times> fs" where
  "writeFile repoPath path c t =
     (let fullPath = path_join [repoPath, path];
          dir = dirname fullPath
      in case fs_mkdir dir t of
           (Inl e, t1) \<Rightarrow> (Inl e, t1)
         | (Inr _, t1) \<Rightarrow> fs_writeFile fullPath c t1)"

definition deleteFile :: "string \<Rightarrow> string \<Rightarrow> fs \<Rightarrow> (io_error + unit) \<times> fs" where
  "deleteFile repoPath path t =
     (let fullPath = path_join [repoPath, path]
      in fs_unlink fullPath t)"

text \<open>JavaScript truthiness of the optional \<open>content\<close> field: absent and the empty string are falsy.\<close>

definition truthy :: "string option \<Rightarrow> bool" where
  "truthy c = (case c of None \<Rightarrow> False | Some s \<Rightarrow> s \<noteq> [])"

text \<open>The body of the \<open>for\<close> loop of \<open>applyChanges\<close>: the \<open>switch\<close> on the action.\<close>

definition applyChange :: "string \<Rightarrow> FileChange \<Rightarrow> fs \<Rightarrow> (io_error + unit) \<times> fs" where
  "applyChange repoPath change t =
     (case action change of
        Delete \<Rightarrow> deleteFile repoPath (filePath change) t
      | _ \<Rightarrow> (if truthy (content change)
              then writeFile repoPath (filePath change) (the (content change)) t
              else (Inr (), t)))"

text \<open>
  \<open>applyChanges\<close> runs the changes in order; a rejected operation ends the loop and
  leaves the effects of the operations before it in the file system.
\<close>

fun applyChanges :: "string \<Rightarrow> FileChange list \<Rightarrow> fs \<Rightarrow> (io_error + unit) \<times> fs" where
  "applyChanges repoPath [] t = (Inr (), t)"
| "applyChanges repoPath (change # changes) t =
     (case applyChange repoPath change t of
        (Inl e, t') \<Rightarrow> (Inl e, t')
      | (Inr _, t') \<Rightarrow> applyChanges repoPath changes t')"

text \<open>
  What a change names: the location of \<open>path.join(repoPath, filePath)\<close>. The directories
  a write may create are those on the way to the directory of that path.
\<close>

definition location :: "string \<Rightarrow> fs \<Rightarrow> FileChange \<Rightarrow> string list" where
  "location repoPath t change = locate t (path_join [repoPath, filePath change])"

definition parents :: "string \<Rightarrow> fs \<Rightarrow> FileChange \<Rightarrow> string list list" where
  "parents repoPath t change = dirs_to (locate t (dirname (path_join [repoPath, filePath change])))"

definition file_at :: "fs \<Rightarrow> string list \<Rightarrow> string option" where
  "file_at t k = (case nodes t k of Some (File c) \<Rightarrow> Some c | _ \<Rightarrow> None)"

section \<open>Properties of applyChanges\<close>

subsection \<open>What one call of the file system changes\<close>

lemma locate_cwd: "cwd t' = cwd t \<Longrightarrow> locate t' p = locate t p"
  by (simp add: locate_def)

lemma foldl_mkdir: "foldl (\<lambda>m q. m(q \<mapsto> Dir)) m qs k = (if k \<in> set qs then Some Dir else m k)"
  by (induction qs arbitrary: m) auto

lemma dirs_to_nonempty: "[] \<notin> set (dirs_to k)"
  by (induction k) auto

lemma is_file_simps [simp]:
  "is_file None = False" "is_file (Some Dir) = False" "is_file (Some (File c)) = True"
  by (simp_all add: is_file_def)

lemma is_file_iff: "is_file n \<longleftrightarrow> (\<exists>c. n = Some (File c))"
  by (auto simp: is_file_def split: option.splits node.splits)

lemma syscall_cases:
  assumes "syscall f t = (r, t')"
  obtains e where "io_faults t (io_calls t) = Some e" "r = Inl e" "t' = t\<lparr>io_calls := Suc (io_calls t)\<rparr>"
  | "io_faults t (io_calls t) = None" "f (t\<lparr>io_calls := Suc (io_calls t)\<rparr>) = (r, t')"
  using assms by (auto simp: syscall_def split: option.splits)

lemma locate_io_calls [simp]: "locate (t\<lparr>io_calls := n\<rparr>) p = locate t p"
  by (simp add: locate_def)

lemma node_at_io_calls [simp]: "node_at (t\<lparr>io_calls := n\<rparr>) k = node_at t k"
  by (simp add: node_at_def)

lemma blocked_io_calls [simp]: "blocked (t\<lparr>io_calls := n\<rparr>) p k = blocked t p k"
  by (simp add: blocked_def split: list.splits)

text \<open>
  One call leaves the working directory where it is. A node it changes is, for \<open>mkdir\<close>,
  a missing directory on the way; for \<open>writeFile\<close>, the file at the path; for \<open>unlink\<close>,
  the file at the path, which is gone afterwards.
\<close>

definition unchanged_or_made :: "fs \<Rightarrow> fs \<Rightarrow> string list list \<Rightarrow> string list \<Rightarrow> bool" where
  "unchanged_or_made t t' made k \<longleftrightarrow>
     nodes t' k = nodes t k \<or> (nodes t k = None \<and> nodes t' k = Some Dir \<and> k \<in> set made)"

lemma fs_mkdir_effect:
  assumes "fs_mkdir p t = (r, t')"
  shows "cwd t' = cwd t" and "unchanged_or_made t t' (dirs_to (locate t p)) k"
proof -
  from assms have s: "syscall (\<lambda>t.
       (let k = locate t p
        in case filter (\<lambda>q. is_file (node_at t q)) (dirs_to k) of
             q # _ \<Rightarrow> (Inl (if q = k then EEXIST p else ENOTDIR p), t)
           | [] \<Rightarrow> (Inr (), t\<lparr>nodes := foldl (\<lambda>m q. m(q \<mapsto> Dir)) (nodes t) (dirs_to k)\<rparr>))) t
       = (r, t')"
    by (simp add: fs_mkdir_def)
  have "cwd t' = cwd t \<and> unchanged_or_made t t' (dirs_to (locate t p)) k"
    using s
  proof (cases rule: syscall_cases)
    case (1 e)
    then show ?thesis by (simp add: unchanged_or_made_def)
  next
    case 2
    show ?thesis
    proof (cases "filter (\<lambda>q. is_file (node_at t q)) (dirs_to (locate t p))")
      case (Cons q qs)
      with 2 show ?thesis by (auto simp: Let_def unchanged_or_made_def)
    next
      case Nil
      with 2 have t': "nodes t' = foldl (\<lambda>m q. m(q \<mapsto> Dir)) (nodes t) (dirs_to (locate t p))"
        and c: "cwd t' = cwd t"
        by (auto simp: Let_def)
      show ?thesis
      proof (cases "k \<in> set (dirs_to (locate t p))")
        case False
        with t' c show ?thesis by (simp add: foldl_mkdir unchanged_or_made_def)
      next
        case True
        with Nil have "\<not> is_file (node_at t k)" by (auto simp: filter_empty_conv)
        moreover from True dirs_to_nonempty have "k \<noteq> []" by metis
        ultimately have "\<not> is_file (nodes t k)" by (simp add: node_at_def)
        then have "nodes t k = None \<or> nodes t k = Some Dir"
        proof (cases "nodes t k")
          case (Some n)
          with \<open>\<not> is_file (nodes t k)\<close> show ?thesis by (cases n) simp_all
        qed simp
        with True t' c show ?thesis by (auto simp: foldl_mkdir unchanged_or_made_def)
      qed
    qed
  qed
  then show "cwd t' = cwd t" and "unchanged_or_made t t' (dirs_to (locate t p)) k" by simp_all
qed

lemma fs_writeFile_effect:
  assumes "fs_writeFile p c t = (r, t')"
  shows "cwd t' = cwd t"
    and "k \<noteq> locate t p \<Longrightarrow> nodes t' k = nodes t k"
    and "nodes t' k = nodes t k \<or> (nodes t k \<noteq> Some Dir \<and> nodes t' k = Some (File c))"
proof -
  from assms have s: "syscall (\<lambda>t.
       (let k = locate t p
        in case blocked t p k of
             Some e \<Rightarrow> (Inl e, t)
           | None \<Rightarrow>
               (case node_at t k of
                  Some Dir \<Rightarrow> (Inl (EISDIR p), t)
                | Some (File _) \<Rightarrow>
                    if trailing_slash p then (Inl (ENOTDIR p), t)
                    else (Inr (), t\<lparr>nodes := (nodes t)(k \<mapsto> File c)\<rparr>)
                | None \<Rightarrow>
                    if trailing_slash p then (Inl (EISDIR p), t)
                    else (Inr (), t\<lparr>nodes := (nodes t)(k \<mapsto> File c)\<rparr>)))) t = (r, t')"
    by (simp add: fs_writeFile_def)
  have "cwd t' = cwd t \<and> (k \<noteq> locate t p \<longrightarrow> nodes t' k = nodes t k) \<and>
      (nodes t' k = nodes t k \<or> (nodes t k \<noteq> Some Dir \<and> nodes t' k = Some (File c)))"
    using s
  proof (cases rule: syscall_cases)
    case (1 e)
    then show ?thesis by simp
  next
    case 2
    then show ?thesis
      by (auto simp: Let_def node_at_def split: option.splits node.splits if_splits)
  qed
  then show "cwd t' = cwd t"
    and "k \<noteq> locate t p \<Longrightarrow> nodes t' k = nodes t k"
    and "nodes t' k = nodes t k \<or> (nodes t k \<noteq> Some Dir \<and> nodes t' k = Some (File c))"
    by simp_all
qed

lemma fs_unlink_effect:
  assumes "fs_unlink p t = (r, t')"
  shows "cwd t' = cwd t"
    and "k \<noteq> locate t p \<Longrightarrow> nodes t' k = nodes t k"
    and "nodes t' k = nodes t k \<or> (is_file (nodes t k) \<and> nodes t' k = None)"
proof -
  from assms have s: "syscall (\<lambda>t.
       (let k = locate t p
        in case blocked t p k of
             Some e \<Rightarrow> (Inl e, t)
           | None \<Rightarrow>
               (case node_at t k of
                  None \<Rightarrow> (Inl (ENOENT p), t)
                | Some Dir \<Rightarrow> (Inl (EISDIR p), t)
                | Some (File _) \<Rightarrow>
                    if trailing_slash p then (Inl (ENOTDIR p), t)
                    else (Inr (), t\<lparr>nodes := (nodes t)(k := None)\<rparr>)))) t = (r, t')"
    by (simp add: fs_unlink_def)
  have "cwd t' = cwd t \<and> (k \<noteq> locate t p \<longrightarrow> nodes t' k = nodes t k) \<and>
      (nodes t' k = nodes t k \<or> (is_file (nodes t k) \<and> nodes t' k = None))"
    using s
  proof (cases rule: syscall_cases)
    case (1 e)
    then show ?thesis by simp
  next
    case 2
    then show ?thesis
      by (auto simp: Let_def node_at_def split: option.splits node.splits if_splits)
  qed
  then show "cwd t' = cwd t"
    and "k \<noteq> locate t p \<Longrightarrow> nodes t' k = nodes t k"
    and "nodes t' k = nodes t k \<or> (is_file (nodes t k) \<and> nodes t' k = None)"
    by simp_all
qed

subsection \<open>What one change does\<close>

text \<open>
  The effect of one change on the node at a location \<open>k\<close>: nothing; or a missing directory
  on the way to the file of a write is created; or \<open>k\<close> is the location the change names,
  and the file there is written, where no directory is, or deleted.
\<close>

definition effect :: "string \<Rightarrow> FileChange \<Rightarrow> fs \<Rightarrow> fs \<Rightarrow> string list \<Rightarrow> bool" where
  "effect repoPath change t t' k \<longleftrightarrow>
     nodes t' k = nodes t k \<or>
     (action change \<noteq> Delete \<and> nodes t k = None \<and> nodes t' k = Some Dir \<and>
        k \<in> set (parents repoPath t change)) \<or>
     (action change \<noteq> Delete \<and> k = location repoPath t change \<and> nodes t k \<noteq> Some Dir \<and>
        is_file (nodes t' k)) \<or>
     (action change = Delete \<and> k = location repoPath t change \<and> is_file (nodes t k) \<and>
        nodes t' k = None)"

lemma applyChange_effect:
  assumes "applyChange repoPath change t = (r, t')"
  shows "cwd t' = cwd t" and "effect repoPath change t t' k"
proof -
  let ?full = "path_join [repoPath, filePath change]"
  have both: "cwd t' = cwd t \<and> effect repoPath change t t' k"
  proof (cases "action change = Delete")
    case True
    with assms have u: "fs_unlink ?full t = (r, t')"
      by (simp add: applyChange_def deleteFile_def)
    from fs_unlink_effect(1) [OF u] fs_unlink_effect(2,3) [OF u, of k] True show ?thesis
      by (auto simp: effect_def location_def)
  next
    case False
    show ?thesis
    proof (cases "truthy (content change)")
      case no: False
      with assms False have "t' = t" by (auto simp: applyChange_def split: action.splits)
      then show ?thesis by (simp add: effect_def)
    next
      case yes: True
      with assms False have w: "writeFile repoPath (filePath change) (the (content change)) t = (r, t')"
        by (auto simp: applyChange_def split: action.splits)
      obtain r1 t1 where m: "fs_mkdir (dirname ?full) t = (r1, t1)"
        by (cases "fs_mkdir (dirname ?full) t")
      note m1 = fs_mkdir_effect(1) [OF m]
      have made: "unchanged_or_made t t1 (parents repoPath t change) k"
        using fs_mkdir_effect(2) [OF m, of k] by (simp add: parents_def)
      show ?thesis
      proof (cases r1)
        case (Inl e)
        have "t' = t1" using w unfolding writeFile_def Let_def m Inl by simp
        with m1 made False show ?thesis by (auto simp: effect_def unchanged_or_made_def)
      next
        case (Inr u)
        have f: "fs_writeFile ?full (the (content change)) t1 = (r, t')"
          using w unfolding writeFile_def Let_def m Inr by simp
        have f1: "cwd t' = cwd t1" "k \<noteq> locate t1 ?full \<Longrightarrow> nodes t' k = nodes t1 k"
          "nodes t' k = nodes t1 k \<or>
             (nodes t1 k \<noteq> Some Dir \<and> nodes t' k = Some (File (the (content change))))"
          using fs_writeFile_effect [OF f] by blast+
        have loc: "locate t1 ?full = location repoPath t change"
          by (simp add: location_def locate_cwd [OF m1])
        have cwd: "cwd t' = cwd t" using f1(1) m1 by simp
        have "effect repoPath change t t' k"
        proof (cases "k = location repoPath t change")
          case other: False
          with f1(2) loc have "nodes t' k = nodes t1 k" by simp
          with made False show ?thesis by (auto simp: effect_def unchanged_or_made_def)
        next
          case here: True
          from f1(3) show ?thesis
          proof
            assume "nodes t' k = nodes t1 k"
            with made False show ?thesis by (auto simp: effect_def unchanged_or_made_def)
          next
            assume a: "nodes t1 k \<noteq> Some Dir \<and> nodes t' k = Some (File (the (content change)))"
            with made have "nodes t1 k = nodes t k" by (auto simp: unchanged_or_made_def)
            with a here False show ?thesis by (auto simp: effect_def)
          qed
        qed
        with cwd show ?thesis by simp
      qed
    qed
  qed
  from both show "cwd t' = cwd t" and "effect repoPath change t t' k" by simp_all
qed

lemma location_cwd: "cwd t' = cwd t \<Longrightarrow> location repoPath t' change = location repoPath t change"
  unfolding location_def by (rule locate_cwd)

lemma parents_cwd: "cwd t' = cwd t \<Longrightarrow> parents repoPath t' change = parents repoPath t change"
  unfolding parents_def by (rule arg_cong [where f = dirs_to], rule locate_cwd)

subsection \<open>What a list of changes does\<close>

lemma applyChanges_cwd: "applyChanges repoPath changes t = (r, t') \<Longrightarrow> cwd t' = cwd t"
proof (induction changes arbitrary: t)
  case Nil
  then show ?case by simp
next
  case (Cons change changes)
  obtain r1 t1 where step: "applyChange repoPath change t = (r1, t1)"
    by (cases "applyChange repoPath change t")
  note c1 = applyChange_effect(1) [OF step]
  show ?case
  proof (cases r1)
    case (Inl e)
    with step Cons.prems c1 show ?thesis by simp
  next
    case (Inr u)
    with step Cons.prems have "applyChanges repoPath changes t1 = (r, t')" by simp
    from Cons.IH [OF this] c1 show ?thesis by simp
  qed
qed

text \<open>
  A location that no change names holds afterwards what it held before, unless nothing
  was there and it is now a directory on the way to a file that a change writes.
\<close>

lemma applyChanges_frame:
  assumes "applyChanges repoPath changes t = (r, t')"
    and "\<forall>change \<in> set changes. location repoPath t change \<noteq> k"
  shows "nodes t' k = nodes t k \<or>
     (nodes t k = None \<and> nodes t' k = Some Dir \<and>
        (\<exists>change \<in> set changes. action change \<noteq> Delete \<and> k \<in> set (parents repoPath t change)))"
  using assms
proof (induction changes arbitrary: t)
  case Nil
  then show ?case by simp
next
  case (Cons change changes)
  obtain r1 t1 where step: "applyChange repoPath change t = (r1, t1)"
    by (cases "applyChange repoPath change t")
  note c1 = applyChange_effect(1) [OF step] applyChange_effect(2) [OF step, of k]
  have not_here: "k \<noteq> location repoPath t change" using Cons.prems(2) by auto
  with c1(2) have first: "nodes t1 k = nodes t k \<or>
      (action change \<noteq> Delete \<and> nodes t k = None \<and> nodes t1 k = Some Dir \<and>
         k \<in> set (parents repoPath t change))"
    by (auto simp: effect_def)
  show ?case
  proof (cases r1)
    case (Inl e)
    with step Cons.prems(1) have "t' = t1" by simp
    with first show ?thesis by auto
  next
    case (Inr u)
    with step Cons.prems(1) have rest: "applyChanges repoPath changes t1 = (r, t')" by simp
    have "\<forall>change \<in> set changes. location repoPath t1 change \<noteq> k"
      using Cons.prems(2) by (simp add: location_cwd [OF c1(1)])
    from Cons.IH [OF rest this]
    have second: "nodes t' k = nodes t1 k \<or>
      (nodes t1 k = None \<and> nodes t' k = Some Dir \<and>
        (\<exists>change \<in> set changes. action change \<noteq> Delete \<and> k \<in> set (parents repoPath t change)))"
      by (simp add: parents_cwd [OF c1(1)])
    from first second show ?thesis by auto
  qed
qed

text \<open>A file that is gone was deleted by a change that names its location.\<close>

lemma applyChanges_removes:
  assumes "applyChanges repoPath changes t = (r, t')"
    and "is_file (nodes t k)" and "\<not> is_file (nodes t' k)"
  shows "\<exists>change \<in> set changes. action change = Delete \<and> location repoPath t change = k"
  using assms
proof (induction changes arbitrary: t)
  case Nil
  then show ?case by simp
next
  case (Cons change changes)
  obtain r1 t1 where step: "applyChange repoPath change t = (r1, t1)"
    by (cases "applyChange repoPath change t")
  note c1 = applyChange_effect(1) [OF step] applyChange_effect(2) [OF step, of k]
  show ?case
  proof (cases "is_file (nodes t1 k)")
    case False
    with c1(2) Cons.prems(2) have "action change = Delete \<and> location repoPath t change = k"
      by (auto simp: effect_def)
    then show ?thesis by simp
  next
    case True
    show ?thesis
    proof (cases r1)
      case (Inl e)
      with step Cons.prems(1) have "t' = t1" by simp
      with True Cons.prems(3) show ?thesis by simp
    next
      case (Inr u)
      with step Cons.prems(1) have rest: "applyChanges repoPath changes t1 = (r, t')" by simp
      from Cons.IH [OF rest True Cons.prems(3)] show ?thesis
        by (auto simp: location_cwd [OF c1(1)])
    qed
  qed
qed

lemma applyChange_empty_content:
  "action change \<noteq> Delete \<Longrightarrow> \<not> truthy (content change) \<Longrightarrow>
   applyChange repoPath change t = (Inr (), t)"
  by (simp add: applyChange_def split: action.splits)

lemma applyChanges_empty_content:
  "\<forall>change \<in> set changes. action change \<noteq> Delete \<and> \<not> truthy (content change) \<Longrightarrow>
   applyChanges repoPath changes t = (Inr (), t)"
  by (induction changes arbitrary: t) (simp_all add: applyChange_empty_content)

lemma file_at_is_file: "file_at t k = None \<longleftrightarrow> \<not> is_file (nodes t k)"
  by (auto simp: file_at_def is_file_def split: option.splits node.splits)

subsection \<open>A sample checkout\<close>

text \<open>
  A checkout at \<open>/repo\<close> that holds the given files, by name and content, at its top
  level, seen from a process that runs in \<open>/home/agent\<close> and whose calls fail for no
  outside reason.
\<close>

definition no_io_faults :: "nat \<Rightarrow> io_error option" where
  "no_io_faults n = None"

definition checkout :: "(string \<times> string) list \<Rightarrow> fs" where
  "checkout files =
     \<lparr>cwd = [''home'', ''agent''],
      nodes = map_of ([([''home''], Dir), ([''home'', ''agent''], Dir), ([''repo''], Dir)] @
                      map (\<lambda>(name, c). ([''repo'', name], File c)) files),
      io_faults = no_io_faults,
      io_calls = 0\<rparr>"

definition delete_A_create_B :: "FileChange list" where
  "delete_A_create_B =
     [\<lparr>filePath = ''./A.swift'', action = Delete, content = Some [], originalContent = None\<rparr>,
      \<lparr>filePath = ''Sources/B.swift'', action = Create, content = Some ''b'', originalContent = None\<rparr>]"

definition nothing_to_write :: "FileChange list" where
  "nothing_to_write =
     [\<lparr>filePath = ''C.swift'', action = Modify, content = Some [], originalContent = None\<rparr>,
      \<lparr>filePath = ''D.swift'', action = Create, content = None, originalContent = None\<rparr>]"

text \<open>
  How the calls of the file system show in \<open>applyChanges\<close>: a path is resolved before it
  is used, so that \<open>./C.swift\<close> names the file \<open>C.swift\<close> of the checkout; a file cannot be
  created below a file, where \<open>mkdir\<close> is rejected; and a directory cannot be deleted.
\<close>

lemma applyChanges_samples:
  "file_at (snd (applyChanges ''/repo''
       [\<lparr>filePath = ''./C.swift'', action = Modify, content = Some ''new'', originalContent = None\<rparr>]
       (checkout [(''C.swift'', ''c'')]))) [''repo'', ''C.swift''] = Some ''new''"
  "fst (applyChanges ''/repo''
       [\<lparr>filePath = ''A.swift'', action = Create, content = Some ''a'', originalContent = None\<rparr>,
        \<lparr>filePath = ''A.swift/B.swift'', action = Create, content = Some ''b'', originalContent = None\<rparr>]
       (checkout [])) = Inl (EEXIST ''/repo/A.swift'')"
  "fst (applyChanges ''/repo''
       [\<lparr>filePath = ''Sources/B.swift'', action = Create, content = Some ''b'', originalContent = None\<rparr>,
        \<lparr>filePath = ''Sources'', action = Delete, content = None, originalContent = None\<rparr>]
       (checkout [])) = Inl (EISDIR ''/repo/Sources'')"
  "fst (applyChanges ''/repo''
       [\<lparr>filePath = ''Old.swift'', action = Delete, content = None, originalContent = None\<rparr>]
       (checkout [])) = Inl (ENOENT ''/repo/Old.swift'')"
  by code_simp+

text \<open>
  Claim C10. \<open>applyChanges\<close> touches only the paths named in its change list, a path
  naming the location that \<open>path.join(repoPath, filePath)\<close> leads to. At a location that
  no operation names, the file keeps its prior content and no file appears (also when
  the loop ends early on a rejected operation); what is there is unchanged, unless
  nothing was there and it is now a directory on the way to a file of a create or modify
  operation. A file that existed and is gone afterwards was named by a delete operation.
  A create or modify operation whose content is absent or empty calls nothing, changes
  nothing and raises no error, alone or in a list of such operations.
\<close>

theorem applyChanges_frame_effect:
  "((\<forall>change \<in> set changes. location repoPath t change \<noteq> k) \<longrightarrow>
      file_at (snd (applyChanges repoPath changes t)) k = file_at t k \<and>
      (nodes (snd (applyChanges repoPath changes t)) k = nodes t k \<or>
       (nodes t k = None \<and> nodes (snd (applyChanges repoPath changes t)) k = Some Dir \<and>
          (\<exists>change \<in> set changes. action change \<noteq> Delete \<and>
             k \<in> set (parents repoPath t change))))) \<and>
   (file_at t k \<noteq> None \<and> file_at (snd (applyChanges repoPath changes t)) k = None \<longrightarrow>
      (\<exists>change \<in> set changes. action change = Delete \<and> location repoPath t change = k)) \<and>
   (action change \<noteq> Delete \<and> (content change = None \<or> content change = Some []) \<longrightarrow>
      applyChange repoPath change t = (Inr (), t)) \<and>
   ((\<forall>change \<in> set changes. action change \<noteq> Delete \<and>
        (content change = None \<or> content change = Some [])) \<longrightarrow>
      applyChanges repoPath changes t = (Inr (), t))"
proof -
  obtain r t' where run: "applyChanges repoPath changes t = (r, t')"
    by (cases "applyChanges repoPath changes t")
  have frame: "file_at t' k = file_at t k \<and>
      (nodes t' k = nodes t k \<or>
       (nodes t k = None \<and> nodes t' k = Some Dir \<and>
          (\<exists>change \<in> set changes. action change \<noteq> Delete \<and>
             k \<in> set (parents repoPath t change))))"
    if "\<forall>change \<in> set changes. location repoPath t change \<noteq> k"
  proof -
    note f = applyChanges_frame [OF run that]
    then have "file_at t' k = file_at t k" by (auto simp: file_at_def)
    with f show ?thesis by simp
  qed
  have removed: "\<exists>change \<in> set changes. action change = Delete \<and> location repoPath t change = k"
    if "file_at t k \<noteq> None \<and> file_at t' k = None"
    using applyChanges_removes [OF run, of k] that by (simp add: file_at_is_file)
  have one: "applyChange repoPath change t = (Inr (), t)"
    if "action change \<noteq> Delete \<and> (content change = None \<or> content change = Some [])"
    using that by (intro applyChange_empty_content) (auto simp: truthy_def)
  have all: "applyChanges repoPath changes t = (Inr (), t)"
    if "\<forall>change \<in> set changes. action change \<noteq> Delete \<and>
          (content change = None \<or> content change = Some [])"
    using that by (intro applyChanges_empty_content) (auto simp: truthy_def)
  from frame removed one all show ?thesis by (simp add: run)
qed

theorem applyChanges_frame_effect_witness:
  "location ''/repo'' (checkout [(''A.swift'', ''a''), (''C.swift'', ''c'')])
     \<lparr>filePath = ''./A.swift'', action = Delete, content = Some [], originalContent = None\<rparr>
     = [''repo'', ''A.swift''] \<and>
   fst (applyChanges ''/repo'' delete_A_create_B (checkout [(''A.swift'', ''a''), (''C.swift'', ''c'')]))
     = Inr () \<and>
   file_at (snd (applyChanges ''/repo'' delete_A_create_B
       (checkout [(''A.swift'', ''a''), (''C.swift'', ''c'')]))) [''repo'', ''C.swift''] = Some ''c'' \<and>
   file_at (snd (applyChanges ''/repo'' delete_A_create_B
       (checkout [(''A.swift'', ''a''), (''C.swift'', ''c'')]))) [''repo'', ''A.swift''] = None \<and>
   nodes (snd (applyChanges ''/repo'' delete_A_create_B
       (checkout [(''A.swift'', ''a''), (''C.swift'', ''c'')]))) [''repo'', ''Sources''] = Some Dir \<and>
   applyChanges ''/repo'' nothing_to_write (checkout [(''C.swift'', ''c'')])
     = (Inr (), checkout [(''C.swift'', ''c'')])"
proof -
  let ?t = "checkout [(''A.swift'', ''a''), (''C.swift'', ''c'')]"
  let ?t' = "snd (applyChanges ''/repo'' delete_A_create_B ?t)"
  have l1: "location ''/repo'' ?t
      \<lparr>filePath = ''./A.swift'', action = Delete, content = Some [], originalContent = None\<rparr>
      = [''repo'', ''A.swift'']"
    by code_simp
  have l2: "location ''/repo'' ?t
      \<lparr>filePath = ''Sources/B.swift'', action = Create, content = Some ''b'', originalContent = None\<rparr>
      = [''repo'', ''Sources'', ''B.swift'']"
    by code_simp
  have unnamed: "\<forall>change \<in> set delete_A_create_B. location ''/repo'' ?t change \<noteq> [''repo'', ''C.swift'']"
    by (simp add: delete_A_create_B_def l1 l2)
  have before: "file_at ?t [''repo'', ''C.swift''] = Some ''c''" by code_simp
  have ok: "fst (applyChanges ''/repo'' delete_A_create_B ?t) = Inr ()" by code_simp
  have gone: "file_at ?t' [''repo'', ''A.swift''] = None" by code_simp
  have made: "nodes ?t' [''repo'', ''Sources''] = Some Dir" by code_simp
  have empty: "\<forall>change \<in> set nothing_to_write. action change \<noteq> Delete \<and>
      (content change = None \<or> content change = Some [])"
    by (simp add: nothing_to_write_def)
  from applyChanges_frame_effect [of delete_A_create_B "''/repo''" ?t "[''repo'', ''C.swift'']"] unnamed before
  have kept: "file_at ?t' [''repo'', ''C.swift''] = Some ''c''" by simp
  from applyChanges_frame_effect [of nothing_to_write "''/repo''" "checkout [(''C.swift'', ''c'')]"] empty
  have noop: "applyChanges ''/repo'' nothing_to_write (checkout [(''C.swift'', ''c'')])
     = (Inr (), checkout [(''C.swift'', ''c'')])" by simp
  from l1 ok kept gone made noop show ?thesis by blast
qed

section \<open>Regular expressions as backtracking matchers\<close>

text \<open>
  A JavaScript string is a \<open>string\<close> (code units below 256). A piece of a regular
  expression is a matcher in continuation-passing style: it is given the continuation
  for the rest of the pattern and the remaining input, tries its own alternatives in the
  priority order of the backtracking engine (a greedy quantifier the longest repetition
  first, a lazy one the shortest first, an alternation from left to right) and returns
  the first overall success. The continuation receives the text the piece matched and
  the input after it. All patterns of the program carry the \<open>i\<close> flag, so literals
  are compared up to the case of ASCII letters.
\<close>

definition is_space :: "char \<Rightarrow> bool" where
  "is_space c \<longleftrightarrow> (CHR 0x09 \<le> c \<and> c \<le> CHR 0x0D) \<or> c = CHR '' '' \<or> c = CHR 0xA0"

definition is_digit :: "char \<Rightarrow> bool" where
  "is_digit c \<longleftrightarrow> CHR ''0'' \<le> c \<and> c \<le> CHR ''9''"

definition is_upper :: "char \<Rightarrow> bool" where
  "is_upper c \<longleftrightarrow> CHR ''A'' \<le> c \<and> c \<le> CHR ''Z''"

definition is_lower :: "char \<Rightarrow> bool" where
  "is_lower c \<longleftrightarrow> CHR ''a'' \<le> c \<and> c \<le> CHR ''z''"

definition is_word :: "char \<Rightarrow> bool" where
  "is_word c \<longleftrightarrow> is_upper c \<or> is_lower c \<or> is_digit c \<or> c = CHR ''_''"

definition not_newline :: "char \<Rightarrow> bool" where
  "not_newline c \<longleftrightarrow> c \<noteq> CHR 0x0A"

text \<open>The dot: any character but a line terminator.\<close>

definition is_dot :: "char \<Rightarrow> bool" where
  "is_dot c \<longleftrightarrow> c \<noteq> CHR 0x0A \<and> c \<noteq> CHR 0x0D"

definition any_char :: "char \<Rightarrow> bool" where
  "any_char c \<longleftrightarrow> True"

definition lower :: "char \<Rightarrow> char" where
  "lower c = (if is_upper c then char_of (of_char c + (32::nat)) else c)"

definition eq_ci :: "string \<Rightarrow> string \<Rightarrow> bool" where
  "eq_ci a b \<longleftrightarrow> map lower a = map lower b"

text \<open>\<open>prefix_ci l s\<close>: the input \<open>s\<close> starts with the literal \<open>l\<close>, up to case.\<close>

fun prefix_ci :: "string \<Rightarrow> string \<Rightarrow> bool" where
  "prefix_ci [] s = True"
| "prefix_ci (c # cs) [] = False"
| "prefix_ci (c # cs) (d # ds) = (if lower c = lower d then prefix_ci cs ds else False)"

type_synonym 'a cont = "string \<Rightarrow> string \<Rightarrow> 'a option"
type_synonym 'a rx = "'a cont \<Rightarrow> string \<Rightarrow> 'a option"

definition lit :: "string \<Rightarrow> 'a rx" where
  "lit l k s =
     (if prefix_ci l s then k (take (length l) s) (drop (length l) s) else None)"

text \<open>\<open>greedy_from mn j\<close> tries the repetition counts \<open>j, j - 1, ..., mn\<close> in this order.\<close>

fun greedy_from :: "nat \<Rightarrow> nat \<Rightarrow> 'a cont \<Rightarrow> string \<Rightarrow> 'a option" where
  "greedy_from mn 0 k s = (if mn = 0 then k [] s else None)"
| "greedy_from mn (Suc j) k s =
     (if Suc j < mn then None
      else case k (take (Suc j) s) (drop (Suc j) s) of
             Some r \<Rightarrow> Some r
           | None \<Rightarrow> greedy_from mn j k s)"

text \<open>A greedy character-class repetition \<open>[P]{mn,}\<close>.\<close>

definition many :: "(char \<Rightarrow> bool) \<Rightarrow> nat \<Rightarrow> 'a rx" where
  "many P mn k s = greedy_from mn (length (takeWhile P s)) k s"

text \<open>\<open>lazy_from f j\<close> tries the repetition counts \<open>j, j + 1, ..., j + f\<close> in this order.\<close>

fun lazy_from :: "nat \<Rightarrow> nat \<Rightarrow> 'a cont \<Rightarrow> string \<Rightarrow> 'a option" where
  "lazy_from 0 j k s = k (take j s) (drop j s)"
| "lazy_from (Suc f) j k s =
     (case k (take j s) (drop j s) of
        Some r \<Rightarrow> Some r
      | None \<Rightarrow> lazy_from f (Suc j) k s)"

text \<open>A lazy character-class repetition \<open>[P]{mn,}?\<close>.\<close>

definition many_lazy :: "(char \<Rightarrow> bool) \<Rightarrow> nat \<Rightarrow> 'a rx" where
  "many_lazy P mn k s =
     (let n = length (takeWhile P s)
      in if n < mn then None else lazy_from (n - mn) mn k s)"

text \<open>An optional piece \<open>r?\<close>, an alternation \<open>r1|r2\<close>, and the end of input \<open>$\<close>.\<close>

definition opt :: "'a rx \<Rightarrow> 'a rx" where
  "opt r k s = (case r k s of Some x \<Rightarrow> Some x | None \<Rightarrow> k [] s)"

definition alt :: "'a rx \<Rightarrow> 'a rx \<Rightarrow> 'a rx" where
  "alt r1 r2 k s = (case r1 k s of Some x \<Rightarrow> Some x | None \<Rightarrow> r2 k s)"

fun alt_lits :: "string list \<Rightarrow> 'a rx" where
  "alt_lits [] k s = None"
| "alt_lits (l # ls) k s = (case lit l k s of Some x \<Rightarrow> Some x | None \<Rightarrow> alt_lits ls k s)"

definition eos :: "'a rx" where
  "eos k s = (if s = [] then k [] [] else None)"

text \<open>
  The search for the leftmost match: the matcher is tried at every start position from
  left to right; the result carries the input skipped before the match.
\<close>

fun find_from :: "(string \<Rightarrow> 'a option) \<Rightarrow> string \<Rightarrow> (string \<times> 'a) option" where
  "find_from m [] = (case m [] of Some r \<Rightarrow> Some ([], r) | None \<Rightarrow> None)"
| "find_from m (c # cs) =
     (case m (c # cs) of
        Some r \<Rightarrow> Some ([], r)
      | None \<Rightarrow> (case find_from m cs of Some (pre, r) \<Rightarrow> Some (c # pre, r) | None \<Rightarrow> None))"

text \<open>
  \<open>String.prototype.matchAll\<close> with a global pattern: the matches from left to right,
  each search starting where the previous match ended, and one position further after
  an empty match. The matcher returns its captures and the input after the match.
\<close>

function matchAll :: "(string \<Rightarrow> ('a \<times> string) option) \<Rightarrow> string \<Rightarrow> 'a list" where
  "matchAll m s =
     (case find_from m s of
        None \<Rightarrow> []
      | Some (pre, cap, rest) \<Rightarrow>
          cap # (if length rest < length s - length pre then matchAll m rest
                 else if length pre < length s then matchAll m (drop (Suc (length pre)) s)
                 else []))"
  by pat_completeness auto
termination
  by (relation "measure (\<lambda>(m, s). length s)") auto

declare matchAll.simps [simp del]

subsection \<open>What a successful match tells\<close>

lemma prefix_ci_iff:
  "prefix_ci l s \<longleftrightarrow> length l \<le> length s \<and> eq_ci (take (length l) s) l"
proof (induction l s rule: prefix_ci.induct)
  case (3 c cs d ds)
  then show ?case by (auto simp: eq_ci_def)
qed (simp_all add: eq_ci_def)

lemma lit_SomeE:
  assumes "lit l k s = Some r"
  obtains m s' where "s = m @ s'" "length m = length l" "eq_ci m l" "k m s' = Some r"
proof -
  from assms have c: "length l \<le> length s" "eq_ci (take (length l) s) l"
    and k: "k (take (length l) s) (drop (length l) s) = Some r"
    by (auto simp: lit_def prefix_ci_iff split: if_splits)
  show thesis
    by (rule that [of "take (length l) s" "drop (length l) s"]) (use c k in auto)
qed

lemma greedy_from_SomeD:
  "greedy_from mn j k s = Some r \<Longrightarrow> \<exists>i. mn \<le> i \<and> i \<le> j \<and> k (take i s) (drop i s) = Some r"
proof (induction j)
  case 0
  then show ?case by (auto split: if_splits)
next
  case (Suc j)
  show ?case
  proof (cases "k (take (Suc j) s) (drop (Suc j) s)")
    case None
    with Suc.prems have "greedy_from mn j k s = Some r" by (auto split: if_splits)
    with Suc.IH obtain i where "mn \<le> i" "i \<le> j" "k (take i s) (drop i s) = Some r" by blast
    then show ?thesis by (intro exI [of _ i]) simp
  next
    case (Some a)
    with Suc.prems have "mn \<le> Suc j" "a = r" by (auto split: if_splits)
    with Some show ?thesis by (intro exI [of _ "Suc j"]) simp
  qed
qed

lemma many_SomeE:
  assumes "many P mn k s = Some r"
  obtains m s' where "s = m @ s'" "mn \<le> length m" "\<forall>c \<in> set m. P c" "k m s' = Some r"
proof -
  from assms obtain i where i: "mn \<le> i" "i \<le> length (takeWhile P s)"
    and k: "k (take i s) (drop i s) = Some r"
    unfolding many_def by (blast dest: greedy_from_SomeD)
  have "take i s = take i (takeWhile P s)"
    using i(2) by (metis append_eq_conv_conj le_add_diff_inverse2 add.commute take_add takeWhile_dropWhile_id take_all order_refl append_Nil2 take_append diff_is_0_eq take_0)
  then have "set (take i s) \<subseteq> set (takeWhile P s)" by (metis set_take_subset)
  then have P: "\<forall>c \<in> set (take i s). P c" by (auto dest: set_takeWhileD)
  have "length (takeWhile P s) \<le> length s" by (rule length_takeWhile_le)
  with i have len: "mn \<le> length (take i s)" by simp
  show thesis
    by (rule that [of "take i s" "drop i s"]) (use P len k in auto)
qed

lemma lazy_from_SomeD:
  "lazy_from f j k s = Some r \<Longrightarrow> \<exists>i. j \<le> i \<and> i \<le> j + f \<and> k (take i s) (drop i s) = Some r"
proof (induction f arbitrary: j)
  case 0
  then show ?case by auto
next
  case (Suc f)
  show ?case
  proof (cases "k (take j s) (drop j s)")
    case None
    with Suc.prems have "lazy_from f (Suc j) k s = Some r" by simp
    with Suc.IH obtain i where "Suc j \<le> i" "i \<le> Suc j + f" "k (take i s) (drop i s) = Some r" by blast
    then show ?thesis by (intro exI [of _ i]) simp
  next
    case (Some a)
    with Suc.prems have "a = r" by simp
    with Some show ?thesis by (intro exI [of _ j]) simp
  qed
qed

lemma many_lazy_SomeE:
  assumes "many_lazy P mn k s = Some r"
  obtains m s' where "s = m @ s'" "mn \<le> length m" "k m s' = Some r"
proof -
  from assms have n: "mn \<le> length (takeWhile P s)"
    and l: "lazy_from (length (takeWhile P s) - mn) mn k s = Some r"
    by (auto simp: many_lazy_def Let_def split: if_splits)
  from lazy_from_SomeD [OF l] obtain i where i: "mn \<le> i" "i \<le> length (takeWhile P s)"
    and k: "k (take i s) (drop i s) = Some r" using n by auto
  have "length (takeWhile P s) \<le> length s" by (rule length_takeWhile_le)
  with i have len: "mn \<le> length (take i s)" by simp
  show thesis
    by (rule that [of "take i s" "drop i s"]) (use len k in auto)
qed

lemma opt_SomeE:
  assumes "opt r k s = Some x"
  obtains "r k s = Some x" | "k [] s = Some x"
  using assms by (auto simp: opt_def split: option.splits)

lemma alt_SomeE:
  assumes "alt r1 r2 k s = Some x"
  obtains "r1 k s = Some x" | "r2 k s = Some x"
  using assms by (auto simp: alt_def split: option.splits)

lemma alt_lits_SomeE:
  assumes "alt_lits ls k s = Some r"
  obtains l where "l \<in> set ls" "lit l k s = Some r"
  using assms by (induction ls) (auto split: option.splits)

lemma eos_SomeE:
  assumes "eos k s = Some r"
  obtains "s = []" "k [] [] = Some r"
  using assms by (auto simp: eos_def split: if_splits)

lemma find_from_SomeE:
  assumes "find_from m s = Some (pre, r)"
  obtains s' where "s = pre @ s'" "m s' = Some r"
  using assms
proof (induction s arbitrary: pre thesis)
  case Nil
  then show ?case by (auto split: option.splits)
next
  case (Cons c cs)
  show ?case
  proof (cases "m (c # cs)")
    case (Some a)
    with Cons.prems(2) have "pre = []" "a = r" by auto
    with Some Cons.prems(1) [of "c # cs"] show ?thesis by simp
  next
    case None
    with Cons.prems(2) obtain pre' where p: "pre = c # pre'" "find_from m cs = Some (pre', r)"
      by (auto split: option.splits)
    from Cons.IH [OF _ p(2)] obtain s' where "cs = pre' @ s'" "m s' = Some r" by blast
    with p(1) Cons.prems(1) [of s'] show ?thesis by simp
  qed
qed


subsection \<open>String helpers of the JavaScript library\<close>

definition trim :: "string \<Rightarrow> string" where
  "trim s = rev (dropWhile is_space (rev (dropWhile is_space s)))"

definition endsWith :: "string \<Rightarrow> string \<Rightarrow> bool" where
  "endsWith s e \<longleftrightarrow> length e \<le> length s \<and> drop (length s - length e) s = e"

fun includes_str :: "string \<Rightarrow> string \<Rightarrow> bool" where
  "includes_str [] n = (n = [])"
| "includes_str (c # cs) n = (take (length n) (c # cs) = n \<or> includes_str cs n)"

text \<open>\<open>s.split(/[P]/)\<close>: the pieces between the separators, empty pieces included.\<close>

fun split_on :: "(char \<Rightarrow> bool) \<Rightarrow> string \<Rightarrow> string list" where
  "split_on P [] = [[]]"
| "split_on P (c # cs) =
     (if P c then [] # split_on P cs
      else case split_on P cs of
             w # ws \<Rightarrow> (c # w) # ws
           | [] \<Rightarrow> [[c]])"

text \<open>A JavaScript \<open>Set\<close> read back with \<open>Array.from\<close>: insertion order, first occurrence kept.\<close>

definition set_add :: "'a list \<Rightarrow> 'a \<Rightarrow> 'a list" where
  "set_add xs x = (if x \<in> set xs then xs else xs @ [x])"

definition array_from_set :: "'a list \<Rightarrow> 'a list" where
  "array_from_set xs = foldl set_add [] xs"

subsection \<open>Matches that succeed at the first choice\<close>

lemma prefix_ci_append: "prefix_ci l (l @ rest)"
  by (simp add: prefix_ci_iff eq_ci_def)

lemma lit_append: "lit l k (l @ rest) = k l rest"
  by (simp add: lit_def prefix_ci_append)

lemma lit_mismatch:
  "lower c \<noteq> lower d \<Longrightarrow> lit (c # l) k (d # s) = None"
  by (simp add: lit_def)

lemma many_longest:
  assumes "mn \<le> length (takeWhile P s)" and "k (takeWhile P s) (dropWhile P s) = Some r"
  shows "many P mn k s = Some r"
proof (cases "length (takeWhile P s)")
  case 0
  then have "takeWhile P s = []" by simp
  then have "dropWhile P s = s" by (cases s) (auto split: if_splits)
  with assms 0 show ?thesis by (simp add: many_def)
next
  case (Suc j)
  have "take (Suc j) s = takeWhile P s" "drop (Suc j) s = dropWhile P s"
    using Suc by (metis takeWhile_eq_take, metis dropWhile_eq_drop)
  with assms Suc show ?thesis by (simp add: many_def)
qed

lemma many_run:
  assumes "list_all P m" and "rest = [] \<or> \<not> P (hd rest)" and "mn \<le> length m"
    and "k m rest = Some r"
  shows "many P mn k (m @ rest) = Some r"
proof -
  have t: "takeWhile P (m @ rest) = m" using assms(1,2)
    by (cases rest) (auto simp: list_all_iff takeWhile_append2 [symmetric] intro: takeWhile_eq_all_conv [THEN iffD2])
  have d: "dropWhile P (m @ rest) = rest" using assms(1,2)
    by (cases rest) (auto simp: list_all_iff)
  show ?thesis by (rule many_longest) (simp_all add: t d assms)
qed

lemma lazy_from_first:
  "\<forall>i. j \<le> i \<and> i < n \<longrightarrow> k (take i s) (drop i s) = None \<Longrightarrow>
   k (take n s) (drop n s) = Some r \<Longrightarrow> j \<le> n \<Longrightarrow> n \<le> j + f \<Longrightarrow>
   lazy_from f j k s = Some r"
proof (induction f arbitrary: j)
  case 0
  then have "j = n" by simp
  with 0 show ?case by simp
next
  case (Suc f)
  show ?case
  proof (cases "j = n")
    case True
    with Suc.prems show ?thesis by simp
  next
    case False
    with Suc.prems have "j < n" by simp
    with Suc.prems have "k (take j s) (drop j s) = None" by simp
    moreover have "lazy_from f (Suc j) k s = Some r"
      using Suc.prems \<open>j < n\<close> by (intro Suc.IH) auto
    ultimately show ?thesis by simp
  qed
qed

lemma many_lazy_shortest:
  assumes "\<forall>i < length m. k (take i (m @ rest)) (drop i (m @ rest)) = None"
    and "k m rest = Some r"
  shows "many_lazy any_char 0 k (m @ rest) = Some r"
proof -
  have tw: "takeWhile any_char (m @ rest) = m @ rest"
    by (rule takeWhile_eq_all_conv [THEN iffD2]) (simp add: any_char_def)
  have n: "length (takeWhile any_char (m @ rest)) = length (m @ rest)" by (simp only: tw)
  have "lazy_from (length (m @ rest)) 0 k (m @ rest) = Some r"
    using assms by (intro lazy_from_first [where n = "length m"]) simp_all
  then show ?thesis unfolding many_lazy_def Let_def n by simp
qed

lemma find_from_here: "m s = Some r \<Longrightarrow> find_from m s = Some ([], r)"
  by (cases s) simp_all

subsection \<open>Facts about single characters\<close>

lemmas char_class_defs = is_space_def is_word_def is_upper_def is_lower_def is_digit_def
  not_newline_def less_eq_char_def

lemma lower_id: "\<not> is_upper c \<Longrightarrow> lower c = c"
  by (simp add: lower_def)

lemma lower_backtick: "lower c = CHR 0x60 \<longleftrightarrow> c = CHR 0x60"
proof (cases "is_upper c")
  case False
  then show ?thesis by (simp add: lower_def)
next
  case True
  then have r: "65 \<le> (of_char c :: nat)" "(of_char c :: nat) \<le> 90"
    by (simp_all add: is_upper_def less_eq_char_def)
  have e: "of_char (char_of (of_char c + (32::nat))) = (of_char c + 32 :: nat)"
    using r by (simp add: of_char_of)
  have "char_of (of_char c + (32::nat)) \<noteq> CHR 0x60"
  proof
    assume "char_of (of_char c + (32::nat)) = CHR 0x60"
    then have "(of_char (char_of (of_char c + (32::nat))) :: nat) = of_char (CHR 0x60)" by simp
    with e r show False by simp
  qed
  moreover have "c \<noteq> CHR 0x60" using r by auto
  ultimately show ?thesis using True by (simp add: lower_def)
qed

lemma trim_id: "s \<noteq> [] \<Longrightarrow> \<not> is_space (hd s) \<Longrightarrow> \<not> is_space (last s) \<Longrightarrow> trim s = s"
proof -
  assume a: "s \<noteq> []" "\<not> is_space (hd s)" "\<not> is_space (last s)"
  then have 1: "dropWhile is_space s = s" by (cases s) simp_all
  have 2: "dropWhile is_space (rev s) = rev s"
  proof (cases "rev s")
    case Nil
    then show ?thesis by (simp only: dropWhile.simps)
  next
    case (Cons x xs)
    then have "x = last s" using a(1) by (metis hd_rev list.sel(1))
    with a(3) show ?thesis unfolding Cons by simp
  qed
  show ?thesis by (simp add: trim_def 1 2)
qed

section \<open>Context Assembler: extractFilePaths\<close>

text \<open>The three patterns; the first is parameterised by its list of extensions.\<close>

definition backtickRegex :: "string list \<Rightarrow> string \<Rightarrow> (string \<times> string) option" where
  "backtickRegex exts =
     lit ''`'' (\<lambda>_.
     many (\<lambda>c. c \<noteq> CHR 0x60) 1 (\<lambda>stem.
     lit ''.'' (\<lambda>dot.
     alt_lits exts (\<lambda>ext.
     lit ''`'' (\<lambda>_ rest. Some (stem @ dot @ ext, rest))))))"

definition boldFilesRegex :: "string \<Rightarrow> (string \<times> string) option" where
  "boldFilesRegex =
     lit ''**File'' (\<lambda>_.
     opt (lit ''s'') (\<lambda>_.
     lit ''**'' (\<lambda>_.
     opt (lit '':'') (\<lambda>_.
     many is_space 0 (\<lambda>_.
     many not_newline 1 (\<lambda>text rest. Some (text, rest)))))))"

definition filesRegex :: "string \<Rightarrow> (string \<times> string) option" where
  "filesRegex =
     lit ''File'' (\<lambda>_.
     opt (lit ''s'') (\<lambda>_.
     lit '':'' (\<lambda>_.
     many is_space 0 (\<lambda>_.
     many not_newline 1 (\<lambda>text rest. Some (text, rest))))))"

text \<open>\<open>p.replace(/^`|`$/g, '')\<close>: a leading back-tick and a trailing back-tick are removed.\<close>

definition strip_backticks :: "string \<Rightarrow> string" where
  "strip_backticks s =
     (let s1 = (if s \<noteq> [] \<and> hd s = CHR 0x60 then tl s else s)
      in if s1 \<noteq> [] \<and> last s1 = CHR 0x60 then butlast s1 else s1)"

text \<open>\<open>p.replace(/:\d+(-\d+)?$/, '')\<close>: the leftmost match, which runs to the end, is cut off.\<close>

definition lineSuffixRegex :: "string \<Rightarrow> unit option" where
  "lineSuffixRegex =
     lit '':'' (\<lambda>_.
     many is_digit 1 (\<lambda>_.
     opt (\<lambda>k. lit ''-'' (\<lambda>_. many is_digit 1 k)) (\<lambda>_.
     eos (\<lambda>_ _. Some ()))))"

definition strip_line_numbers :: "string \<Rightarrow> string" where
  "strip_line_numbers s = (case find_from lineSuffixRegex s of Some (pre, _) \<Rightarrow> pre | None \<Rightarrow> s)"

definition is_separator :: "char \<Rightarrow> bool" where
  "is_separator c \<longleftrightarrow> c = CHR '','' \<or> c = CHR 0x0A"

text \<open>FileOperations.extractFilePaths (file-operations.ts).\<close>

definition clean_path :: "string \<Rightarrow> string" where
  "clean_path p = trim (strip_line_numbers (strip_backticks (trim p)))"

definition keep_path :: "string \<Rightarrow> bool" where
  "keep_path p \<longleftrightarrow> p \<noteq> [] \<and> (endsWith p ''.swift'' \<or> endsWith p ''.graphql'' \<or> endsWith p ''.json'')"

definition paths_of_match :: "string \<Rightarrow> string list" where
  "paths_of_match text = filter keep_path (map clean_path (split_on is_separator text))"

definition extractFilePaths :: "string \<Rightarrow> string list" where
  "extractFilePaths description =
     array_from_set (concat (map (\<lambda>pattern. concat (map paths_of_match (matchAll pattern description)))
       [backtickRegex [''swift'', ''graphql'', ''json'', ''md'', ''txt''], boldFilesRegex, filesRegex]))"

text \<open>GitHubFileOperations.extractFilePaths (the cloud variant), with its longer clean-up.\<close>

text \<open>\<open>p.replace(/^\*\*|\*\*$/g, '')\<close>: a leading and a trailing \<open>**\<close> are removed.\<close>

definition strip_bold :: "string \<Rightarrow> string" where
  "strip_bold s =
     (let s1 = (if take 2 s = ''**'' then drop 2 s else s)
      in if 2 \<le> length s1 \<and> drop (length s1 - 2) s1 = ''**'' then take (length s1 - 2) s1 else s1)"

text \<open>\<open>p.replace(/^[*_-]\s*/g, '')\<close>: one leading list marker and the white space after it.\<close>

definition strip_list_marker :: "string \<Rightarrow> string" where
  "strip_list_marker s =
     (case s of
        [] \<Rightarrow> []
      | c # cs \<Rightarrow> if c \<in> set ''*_-'' then dropWhile is_space cs else s)"

text \<open>\<open>p.replace(/^[^a-zA-Z0-9./_-]+/, '')\<close>: leading characters outside the class are removed.\<close>

definition is_path_char :: "char \<Rightarrow> bool" where
  "is_path_char c \<longleftrightarrow> is_lower c \<or> is_upper c \<or> is_digit c \<or> c \<in> set ''./_-''"

definition clean_path_gh :: "string \<Rightarrow> string" where
  "clean_path_gh p =
     trim (strip_line_numbers (strip_list_marker (strip_backticks (strip_bold (trim p)))))"

definition keep_path_gh :: "string \<Rightarrow> bool" where
  "keep_path_gh p \<longleftrightarrow> p \<noteq> [] \<and>
     (endsWith p ''.swift'' \<or> endsWith p ''.graphql'' \<or> endsWith p ''.json'' \<or>
      endsWith p ''.md'' \<or> endsWith p ''.sh'' \<or> endsWith p ''.txt'')"

definition paths_of_match_gh :: "string \<Rightarrow> string list" where
  "paths_of_match_gh text =
     filter (\<lambda>cleaned. cleaned \<noteq> [])
       (map (dropWhile (\<lambda>c. \<not> is_path_char c))
         (filter keep_path_gh (map clean_path_gh (split_on is_separator text))))"

definition extractFilePaths_gh :: "string \<Rightarrow> string list" where
  "extractFilePaths_gh description =
     array_from_set (concat (map (\<lambda>pattern. concat (map paths_of_match_gh (matchAll pattern description)))
       [backtickRegex [''swift'', ''graphql'', ''json'', ''md'', ''txt'', ''sh''], boldFilesRegex, filesRegex]))"

section \<open>Change-Set Parser: parseFileChanges\<close>

text \<open>
  The local generator (code-generator.ts) expects a path, an action marker and a fenced
  body; each match of the pattern becomes one change, in the order of the text.
\<close>

text \<open>The fence \<open>```[\w]*\n([\s\S]*?)```\<close> that ends both patterns; \<open>f\<close> builds the captures.\<close>

definition fenced :: "(string \<Rightarrow> 'a) \<Rightarrow> string \<Rightarrow> ('a \<times> string) option" where
  "fenced f =
     lit ''```'' (\<lambda>_.
     many is_word 0 (\<lambda>_.
     lit ''\<newline>'' (\<lambda>_.
     many_lazy any_char 0 (\<lambda>body.
     lit ''```'' (\<lambda>_ rest. Some (f body, rest))))))"

text \<open>\<open>/### FILE:\s*([^\n]+)\s*### ACTION:\s*(create|modify|delete)\s*```[\w]*\n([\s\S]*?)```/gi\<close>\<close>

definition fileBlockRegex :: "string \<Rightarrow> ((string \<times> string \<times> string) \<times> string) option" where
  "fileBlockRegex =
     lit ''### FILE:'' (\<lambda>_.
     many is_space 0 (\<lambda>_.
     many not_newline 1 (\<lambda>path.
     many is_space 0 (\<lambda>_.
     lit ''### ACTION:'' (\<lambda>_.
     many is_space 0 (\<lambda>_.
     alt_lits [''create'', ''modify'', ''delete''] (\<lambda>act.
     many is_space 0 (\<lambda>_.
     fenced (\<lambda>body. (path, act, body))))))))))"

lemma fileBlockRegex_progress:
  "fileBlockRegex s = Some (cap, rest) \<Longrightarrow> length rest < length s"
  unfolding fileBlockRegex_def fenced_def
  by (elim lit_SomeE many_SomeE many_lazy_SomeE alt_lits_SomeE) auto

text \<open>
  The loop \<open>while ((match = fileBlockRegex.exec(response)) !== null)\<close>: the pattern is
  global, so each search starts where the previous match ended.
\<close>

function fileBlockMatches :: "string \<Rightarrow> (string \<times> string \<times> string) list" where
  "fileBlockMatches s =
     (case find_from fileBlockRegex s of
        None \<Rightarrow> []
      | Some (pre, cap, rest) \<Rightarrow> cap # fileBlockMatches rest)"
  by pat_completeness auto
termination
proof (relation "measure length")
  fix s :: string and x pre y cap rest
  assume "find_from fileBlockRegex s = Some x" "(pre, y) = x" "(cap, rest) = y"
  then have "find_from fileBlockRegex s = Some (pre, cap, rest)" by simp
  then obtain s' where "s = pre @ s'" "fileBlockRegex s' = Some (cap, rest)"
    by (rule find_from_SomeE)
  then show "(rest, s) \<in> measure length"
    using fileBlockRegex_progress [of s' cap rest] by simp
qed simp

declare fileBlockMatches.simps [simp del]

definition action_of :: "string \<Rightarrow> action" where
  "action_of a =
     (if map lower a = ''create'' then Create
      else if map lower a = ''modify'' then Modify
      else Delete)"

text \<open>The change pushed for one match: \<open>match[1].trim()\<close>, \<open>match[2].trim().toLowerCase()\<close>, \<open>match[3]\<close>.\<close>

definition change_of_match :: "string \<times> string \<times> string \<Rightarrow> FileChange" where
  "change_of_match m =
     (case m of (p, act, body) \<Rightarrow>
        \<lparr>filePath = trim p, action = action_of (trim act), content = Some body,
         originalContent = None\<rparr>)"

definition parseFileChanges :: "string \<Rightarrow> FileChange list" where
  "parseFileChanges response = map change_of_match (fileBlockMatches response)"

text \<open>
  The cloud generator (cloud-code-generator.ts) and the pull-request feedback handler
  use the same loop over a pattern without the action marker.
\<close>

record GitHubFile =
  path :: string
  content_gh :: string
  sha :: "string option"

text \<open>\<open>/### FILE:\s*([^\n]+)\s*```[\w]*\n([\s\S]*?)```/gi\<close>\<close>

definition fileBlockRegex_cloud :: "string \<Rightarrow> ((string \<times> string) \<times> string) option" where
  "fileBlockRegex_cloud =
     lit ''### FILE:'' (\<lambda>_.
     many is_space 0 (\<lambda>_.
     many not_newline 1 (\<lambda>path.
     many is_space 0 (\<lambda>_.
     fenced (\<lambda>body. (path, body))))))"

lemma fileBlockRegex_cloud_progress:
  "fileBlockRegex_cloud s = Some (cap, rest) \<Longrightarrow> length rest < length s"
  unfolding fileBlockRegex_cloud_def fenced_def
  by (elim lit_SomeE many_SomeE many_lazy_SomeE) auto

function fileBlockMatches_cloud :: "string \<Rightarrow> (string \<times> string) list" where
  "fileBlockMatches_cloud s =
     (case find_from fileBlockRegex_cloud s of
        None \<Rightarrow> []
      | Some (pre, cap, rest) \<Rightarrow> cap # fileBlockMatches_cloud rest)"
  by pat_completeness auto
termination
proof (relation "measure length")
  fix s :: string and x pre y cap rest
  assume "find_from fileBlockRegex_cloud s = Some x" "(pre, y) = x" "(cap, rest) = y"
  then have "find_from fileBlockRegex_cloud s = Some (pre, cap, rest)" by simp
  then obtain s' where "s = pre @ s'" "fileBlockRegex_cloud s' = Some (cap, rest)"
    by (rule find_from_SomeE)
  then show "(rest, s) \<in> measure length"
    using fileBlockRegex_cloud_progress [of s' cap rest] by simp
qed simp

declare fileBlockMatches_cloud.simps [simp del]

definition file_of_match :: "string \<times> string \<Rightarrow> GitHubFile" where
  "file_of_match m = (case m of (p, body) \<Rightarrow> \<lparr>path = trim p, content_gh = body, sha = None\<rparr>)"

definition parseFileChanges_cloud :: "string \<Rightarrow> GitHubFile list" where
  "parseFileChanges_cloud response = map file_of_match (fileBlockMatches_cloud response)"

section \<open>Runs of the parsing loop\<close>

text \<open>
  The loop \<open>while ((match = regex.exec(response)) !== null)\<close> as a relation on its state,
  the \<open>lastIndex\<close> of the pattern and the list pushed so far: \<open>exec\<close> searches from
  \<open>lastIndex\<close>; a match moves \<open>lastIndex\<close> to its end and pushes an element; no match
  ends the loop with the list.
\<close>

inductive exec_run ::
  "(string \<Rightarrow> ('c \<times> string) option) \<Rightarrow> ('c \<Rightarrow> 'a) \<Rightarrow> string \<Rightarrow> nat \<Rightarrow> 'a list \<Rightarrow> 'a list \<Rightarrow> bool"
  for regex :: "string \<Rightarrow> ('c \<times> string) option" and item_of :: "'c \<Rightarrow> 'a" and response :: string
where
  no_match:
    "find_from regex (drop lastIndex response) = None \<Longrightarrow>
     exec_run regex item_of response lastIndex pushed pushed"
| match:
    "find_from regex (drop lastIndex response) = Some (pre, cap, rest) \<Longrightarrow>
     exec_run regex item_of response (length response - length rest) (pushed @ [item_of cap]) final \<Longrightarrow>
     exec_run regex item_of response lastIndex pushed final"

definition parseFileChanges_run :: "string \<Rightarrow> FileChange list \<Rightarrow> bool" where
  "parseFileChanges_run response cs =
     exec_run fileBlockRegex change_of_match response 0 [] cs"

definition parseFileChanges_cloud_run :: "string \<Rightarrow> GitHubFile list \<Rightarrow> bool" where
  "parseFileChanges_cloud_run response fs =
     exec_run fileBlockRegex_cloud file_of_match response 0 [] fs"

lemma exec_run_deterministic:
  "exec_run regex item_of response lastIndex pushed a \<Longrightarrow>
   exec_run regex item_of response lastIndex pushed b \<Longrightarrow> a = b"
proof (induction arbitrary: b rule: exec_run.induct)
  case (no_match lastIndex pushed)
  from no_match.prems no_match.hyps show ?case
    by (cases rule: exec_run.cases) simp_all
next
  case (match lastIndex pre cap rest pushed final)
  from match.prems show ?case
  proof (cases rule: exec_run.cases)
    case no_match
    with match.hyps(1) show ?thesis by simp
  next
    case (match pre' cap' rest')
    with match.hyps(1) have "cap' = cap" "rest' = rest" by simp_all
    with match(2) match.IH show ?thesis by simp
  qed
qed

text \<open>What a match of either pattern leaves is a proper suffix of what it was given.\<close>

lemma fileBlockRegex_suffix:
  "fileBlockRegex s = Some (cap, rest) \<Longrightarrow> \<exists>m. s = m @ rest"
  unfolding fileBlockRegex_def fenced_def
  by (elim lit_SomeE many_SomeE many_lazy_SomeE alt_lits_SomeE) auto

lemma fileBlockRegex_cloud_suffix:
  "fileBlockRegex_cloud s = Some (cap, rest) \<Longrightarrow> \<exists>m. s = m @ rest"
  unfolding fileBlockRegex_cloud_def fenced_def
  by (elim lit_SomeE many_SomeE many_lazy_SomeE) auto

lemma drop_to_suffix: "drop li s = pre @ m @ rest \<Longrightarrow> drop (length s - length rest) s = rest"
proof -
  assume a: "drop li s = pre @ m @ rest"
  have "s = take li s @ pre @ m @ rest" using a by (metis append_take_drop_id)
  then have "s = (take li s @ pre @ m) @ rest" by simp
  then obtain x where x: "s = x @ rest" by blast
  then show ?thesis by simp
qed

text \<open>The functions defined by recursion compute the one result of the loop.\<close>

lemma exec_run_fileBlock:
  "exec_run fileBlockRegex item_of response lastIndex pushed
     (pushed @ map item_of (fileBlockMatches (drop lastIndex response)))"
proof (induction "length (drop lastIndex response)" arbitrary: lastIndex pushed rule: less_induct)
  case less
  show ?case
  proof (cases "find_from fileBlockRegex (drop lastIndex response)")
    case None
    then show ?thesis
      by (subst fileBlockMatches.simps) (simp add: exec_run.no_match)
  next
    case (Some x)
    then obtain pre cap rest where
      f: "find_from fileBlockRegex (drop lastIndex response) = Some (pre, cap, rest)"
      by (cases x) auto
    then obtain s' where s': "drop lastIndex response = pre @ s'" "fileBlockRegex s' = Some (cap, rest)"
      by (rule find_from_SomeE)
    from fileBlockRegex_suffix [OF s'(2)] obtain m where m: "s' = m @ rest" by blast
    with s'(1) have d: "drop (length response - length rest) response = rest"
      by (intro drop_to_suffix [of lastIndex response pre m rest]) simp
    have "length rest < length (drop lastIndex response)"
      using fileBlockRegex_progress [OF s'(2)] s'(1) by simp
    then have "length (drop (length response - length rest) response) < length (drop lastIndex response)"
      by (simp only: d)
    from less.hyps [OF this, of "pushed @ [item_of cap]"]
    have "exec_run fileBlockRegex item_of response (length response - length rest) (pushed @ [item_of cap])
       (pushed @ map item_of (cap # fileBlockMatches rest))" by (simp add: d)
    with f have "exec_run fileBlockRegex item_of response lastIndex pushed
       (pushed @ map item_of (cap # fileBlockMatches rest))" by (rule exec_run.match)
    then show ?thesis using f by (subst fileBlockMatches.simps) simp
  qed
qed

lemma exec_run_fileBlock_cloud:
  "exec_run fileBlockRegex_cloud item_of response lastIndex pushed
     (pushed @ map item_of (fileBlockMatches_cloud (drop lastIndex response)))"
proof (induction "length (drop lastIndex response)" arbitrary: lastIndex pushed rule: less_induct)
  case less
  show ?case
  proof (cases "find_from fileBlockRegex_cloud (drop lastIndex response)")
    case None
    then show ?thesis
      by (subst fileBlockMatches_cloud.simps) (simp add: exec_run.no_match)
  next
    case (Some x)
    then obtain pre cap rest where
      f: "find_from fileBlockRegex_cloud (drop lastIndex response) = Some (pre, cap, rest)"
      by (cases x) auto
    then obtain s' where s': "drop lastIndex response = pre @ s'"
      "fileBlockRegex_cloud s' = Some (cap, rest)"
      by (rule find_from_SomeE)
    from fileBlockRegex_cloud_suffix [OF s'(2)] obtain m where m: "s' = m @ rest" by blast
    with s'(1) have d: "drop (length response - length rest) response = rest"
      by (intro drop_to_suffix [of lastIndex response pre m rest]) simp
    have "length rest < length (drop lastIndex response)"
      using fileBlockRegex_cloud_progress [OF s'(2)] s'(1) by simp
    then have "length (drop (length response - length rest) response) < length (drop lastIndex response)"
      by (simp only: d)
    from less.hyps [OF this, of "pushed @ [item_of cap]"]
    have "exec_run fileBlockRegex_cloud item_of response (length response - length rest)
       (pushed @ [item_of cap]) (pushed @ map item_of (cap # fileBlockMatches_cloud rest))"
      by (simp add: d)
    with f have "exec_run fileBlockRegex_cloud item_of response lastIndex pushed
       (pushed @ map item_of (cap # fileBlockMatches_cloud rest))" by (rule exec_run.match)
    then show ?thesis using f by (subst fileBlockMatches_cloud.simps) simp
  qed
qed

section \<open>Well-formed blocks are parsed back one by one\<close>

text \<open>
  A well-formed block of the local format, as the prompt asks for it: the path on the
  line of \<open>### FILE:\<close>, the action on the next line, and the body in a fence. The path
  is a non-empty line without white space at its ends, the body holds no back-tick.
\<close>

definition action_name :: "action \<Rightarrow> string" where
  "action_name a = (case a of Create \<Rightarrow> ''create'' | Modify \<Rightarrow> ''modify'' | Delete \<Rightarrow> ''delete'')"

definition wf_path :: "string \<Rightarrow> bool" where
  "wf_path p \<longleftrightarrow> p \<noteq> [] \<and> \<not> is_space (hd p) \<and> \<not> is_space (last p) \<and> list_all not_newline p"

definition wf_body :: "string \<Rightarrow> bool" where
  "wf_body b \<longleftrightarrow> list_all (\<lambda>c. c \<noteq> CHR 0x60) b"

definition render_block :: "string \<Rightarrow> action \<Rightarrow> string \<Rightarrow> string" where
  "render_block p a b =
     ''### FILE: '' @ p @ ''\<newline>### ACTION: '' @ action_name a @ ''\<newline>```swift\<newline>'' @ b @ ''```\<newline>''"

definition render_block_cloud :: "string \<Rightarrow> string \<Rightarrow> string" where
  "render_block_cloud p b = ''### FILE: '' @ p @ ''\<newline>```swift\<newline>'' @ b @ ''```\<newline>''"

lemma fence_not_in_body:
  assumes "wf_body b" "i < length b"
  shows "lit ''```'' k (drop i (b @ rest)) = None"
proof -
  from assms(2) obtain c cs where d: "drop i (b @ rest) = c # cs" "c = b ! i"
    by (metis Cons_nth_drop_Suc drop_append length_append trans_less_add1 nth_append)
  from assms have "c \<noteq> CHR 0x60" using d(2) by (simp add: wf_body_def list_all_length)
  then have "lower (CHR 0x60) \<noteq> lower c" using lower_backtick [of c] lower_backtick [of "CHR 0x60"]
    by metis
  then show ?thesis unfolding d(1) by (simp add: lit_def)
qed

lemma fenced_body:
  assumes "wf_body b"
  shows "many_lazy any_char 0 (\<lambda>body. lit ''```'' (\<lambda>_ rest. Some (f body, rest)))
           (b @ ''```'' @ rest) = Some (f b, rest)"
proof (rule many_lazy_shortest)
  show "\<forall>i<length b. lit ''```'' (\<lambda>_ rest'. Some (f (take i (b @ ''```'' @ rest)), rest'))
          (drop i (b @ ''```'' @ rest)) = None"
    using fence_not_in_body [OF assms] by blast
  show "lit ''```'' (\<lambda>_ rest. Some (f b, rest)) (''```'' @ rest) = Some (f b, rest)"
    by (simp only: lit_append)
qed

lemma fenced_block:
  assumes "wf_body b"
  shows "fenced f (''```'' @ ''swift'' @ ''\<newline>'' @ b @ ''```'' @ rest) = Some (f b, rest)"
proof -
  have body: "many_lazy any_char 0 (\<lambda>body. lit ''```'' (\<lambda>_ rest. Some (f body, rest)))
      (b @ ''```'' @ rest) = Some (f b, rest)"
    using assms by (rule fenced_body)
  have nl: "lit ''\<newline>'' (\<lambda>_. many_lazy any_char 0 (\<lambda>body. lit ''```'' (\<lambda>_ rest. Some (f body, rest))))
      (''\<newline>'' @ b @ ''```'' @ rest) = Some (f b, rest)"
    by (simp only: lit_append body)
  have lang: "many is_word 0 (\<lambda>_. lit ''\<newline>'' (\<lambda>_. many_lazy any_char 0
        (\<lambda>body. lit ''```'' (\<lambda>_ rest. Some (f body, rest)))))
      (''swift'' @ ''\<newline>'' @ b @ ''```'' @ rest) = Some (f b, rest)"
    by (rule many_run) (rule nl | simp add: char_class_defs)+
  show ?thesis unfolding fenced_def by (simp only: lit_append lang)
qed

lemma lit_Cons:
  "lit (c # l) k (d # s) = (if lower c = lower d then lit l (\<lambda>m. k (d # m)) s else None)"
  by (simp add: lit_def)

lemma lit_Nil: "lit [] k s = k [] s"
  by (simp add: lit_def)

lemma alt_lits_action:
  assumes "k (action_name a) rest = Some r"
  shows "alt_lits [''create'', ''modify'', ''delete''] k (action_name a @ rest) = Some r"
proof (cases a)
  case Create
  with assms show ?thesis by (simp add: action_name_def lit_Cons lit_Nil)
next
  case Modify
  with assms show ?thesis
    by (simp add: action_name_def lit_Cons lit_Nil lower_def char_class_defs)
next
  case Delete
  with assms show ?thesis
    by (simp add: action_name_def lit_Cons lit_Nil lower_def char_class_defs)
qed

lemma action_name_first: "\<not> is_space (hd (action_name a @ rest))"
  by (cases a) (simp_all add: action_name_def char_class_defs)

lemma fileBlockRegex_block:
  assumes "wf_path p" "wf_body b"
  shows "fileBlockRegex (render_block p a b @ rest) =
     Some ((p, action_name a, b), ''\<newline>'' @ rest)"
proof -
  let ?tail = "''```'' @ ''swift'' @ ''\<newline>'' @ b @ ''```'' @ ''\<newline>'' @ rest"
  from assms(1) have p: "p \<noteq> []" "\<not> is_space (hd p)" "list_all not_newline p"
    by (simp_all add: wf_path_def)
  have 8: "many is_space 0 (\<lambda>_. fenced (\<lambda>body. (p, action_name a, body))) (''\<newline>'' @ ?tail) =
      Some ((p, action_name a, b), ''\<newline>'' @ rest)"
    by (rule many_run)
       (rule fenced_block [OF assms(2), of "\<lambda>body. (p, action_name a, body)" "''\<newline>'' @ rest"]
        | simp add: char_class_defs)+
  have 7: "alt_lits [''create'', ''modify'', ''delete'']
       (\<lambda>act. many is_space 0 (\<lambda>_. fenced (\<lambda>body. (p, act, body))))
       (action_name a @ ''\<newline>'' @ ?tail) = Some ((p, action_name a, b), ''\<newline>'' @ rest)"
    by (rule alt_lits_action) (rule 8)
  have 6: "many is_space 0 (\<lambda>_. alt_lits [''create'', ''modify'', ''delete'']
       (\<lambda>act. many is_space 0 (\<lambda>_. fenced (\<lambda>body. (p, act, body)))))
       ('' '' @ action_name a @ ''\<newline>'' @ ?tail) = Some ((p, action_name a, b), ''\<newline>'' @ rest)"
    by (rule many_run) (rule 7 | rule disjI2 [OF action_name_first] | simp add: char_class_defs)+
  have 5: "lit ''### ACTION:'' (\<lambda>_. many is_space 0 (\<lambda>_. alt_lits [''create'', ''modify'', ''delete'']
       (\<lambda>act. many is_space 0 (\<lambda>_. fenced (\<lambda>body. (p, act, body))))))
       (''### ACTION:'' @ '' '' @ action_name a @ ''\<newline>'' @ ?tail) =
      Some ((p, action_name a, b), ''\<newline>'' @ rest)"
    by (simp only: lit_append 6)
  have 4: "many is_space 0 (\<lambda>_. lit ''### ACTION:'' (\<lambda>_. many is_space 0
       (\<lambda>_. alt_lits [''create'', ''modify'', ''delete'']
       (\<lambda>act. many is_space 0 (\<lambda>_. fenced (\<lambda>body. (p, act, body)))))))
       (''\<newline>'' @ ''### ACTION:'' @ '' '' @ action_name a @ ''\<newline>'' @ ?tail) =
      Some ((p, action_name a, b), ''\<newline>'' @ rest)"
    by (rule many_run) (rule 5 | simp add: char_class_defs)+
  have 3: "many not_newline 1 (\<lambda>path. many is_space 0 (\<lambda>_. lit ''### ACTION:'' (\<lambda>_. many is_space 0
       (\<lambda>_. alt_lits [''create'', ''modify'', ''delete'']
       (\<lambda>act. many is_space 0 (\<lambda>_. fenced (\<lambda>body. (path, act, body))))))))
       (p @ ''\<newline>'' @ ''### ACTION:'' @ '' '' @ action_name a @ ''\<newline>'' @ ?tail) =
      Some ((p, action_name a, b), ''\<newline>'' @ rest)"
  proof (rule many_run)
    show "list_all not_newline p" by (rule p)
    show "1 \<le> length p" using p(1) by (cases p) simp_all
  qed (rule 4 | simp add: char_class_defs)+
  have 2: "many is_space 0 (\<lambda>_. many not_newline 1 (\<lambda>path. many is_space 0
       (\<lambda>_. lit ''### ACTION:'' (\<lambda>_. many is_space 0
       (\<lambda>_. alt_lits [''create'', ''modify'', ''delete'']
       (\<lambda>act. many is_space 0 (\<lambda>_. fenced (\<lambda>body. (path, act, body)))))))))
       ('' '' @ p @ ''\<newline>'' @ ''### ACTION:'' @ '' '' @ action_name a @ ''\<newline>'' @ ?tail) =
      Some ((p, action_name a, b), ''\<newline>'' @ rest)"
    by (rule many_run) (rule 3 | use p in \<open>simp add: char_class_defs\<close>)+
  have "render_block p a b @ rest =
      ''### FILE:'' @ '' '' @ p @ ''\<newline>'' @ ''### ACTION:'' @ '' '' @ action_name a @ ''\<newline>'' @ ?tail"
    by (simp add: render_block_def)
  then show ?thesis unfolding fileBlockRegex_def by (simp only: lit_append 2)
qed

lemma fileBlockRegex_cloud_block:
  assumes "wf_path p" "wf_body b"
  shows "fileBlockRegex_cloud (render_block_cloud p b @ rest) = Some ((p, b), ''\<newline>'' @ rest)"
proof -
  let ?tail = "''```'' @ ''swift'' @ ''\<newline>'' @ b @ ''```'' @ ''\<newline>'' @ rest"
  from assms(1) have p: "p \<noteq> []" "\<not> is_space (hd p)" "list_all not_newline p"
    by (simp_all add: wf_path_def)
  have 4: "many is_space 0 (\<lambda>_. fenced (\<lambda>body. (p, body))) (''\<newline>'' @ ?tail) =
      Some ((p, b), ''\<newline>'' @ rest)"
    by (rule many_run)
       (rule fenced_block [OF assms(2), of "\<lambda>body. (p, body)" "''\<newline>'' @ rest"]
        | simp add: char_class_defs)+
  have 3: "many not_newline 1 (\<lambda>path. many is_space 0 (\<lambda>_. fenced (\<lambda>body. (path, body))))
       (p @ ''\<newline>'' @ ?tail) = Some ((p, b), ''\<newline>'' @ rest)"
  proof (rule many_run)
    show "list_all not_newline p" by (rule p)
    show "1 \<le> length p" using p(1) by (cases p) simp_all
  qed (rule 4 | simp add: char_class_defs)+
  have 2: "many is_space 0 (\<lambda>_. many not_newline 1 (\<lambda>path. many is_space 0
       (\<lambda>_. fenced (\<lambda>body. (path, body)))))
       ('' '' @ p @ ''\<newline>'' @ ?tail) = Some ((p, b), ''\<newline>'' @ rest)"
    by (rule many_run) (rule 3 | use p in \<open>simp add: char_class_defs\<close>)+
  have "render_block_cloud p b @ rest = ''### FILE:'' @ '' '' @ p @ ''\<newline>'' @ ?tail"
    by (simp add: render_block_cloud_def)
  then show ?thesis unfolding fileBlockRegex_cloud_def by (simp only: lit_append 2)
qed

lemma fileBlockMatches_skip:
  "fileBlockRegex (c # s) = None \<Longrightarrow> fileBlockMatches (c # s) = fileBlockMatches s"
  by (subst (1 2) fileBlockMatches.simps) (simp split: option.splits)

lemma fileBlockMatches_cloud_skip:
  "fileBlockRegex_cloud (c # s) = None \<Longrightarrow> fileBlockMatches_cloud (c # s) = fileBlockMatches_cloud s"
  by (subst (1 2) fileBlockMatches_cloud.simps) (simp split: option.splits)

lemma fileBlockMatches_block:
  assumes "wf_path p" "wf_body b"
  shows "fileBlockMatches (render_block p a b @ rest) = (p, action_name a, b) # fileBlockMatches rest"
proof -
  have "fileBlockMatches (render_block p a b @ rest) =
      (p, action_name a, b) # fileBlockMatches (''\<newline>'' @ rest)"
    using find_from_here [of fileBlockRegex, OF fileBlockRegex_block [OF assms, of a rest]]
    by (subst fileBlockMatches.simps) simp
  moreover have "fileBlockRegex (CHR ''\<newline>'' # rest) = None"
    by (simp add: fileBlockRegex_def lit_Cons lower_def char_class_defs)
  ultimately show ?thesis by (simp add: fileBlockMatches_skip)
qed

lemma fileBlockMatches_cloud_block:
  assumes "wf_path p" "wf_body b"
  shows "fileBlockMatches_cloud (render_block_cloud p b @ rest) = (p, b) # fileBlockMatches_cloud rest"
proof -
  have "fileBlockMatches_cloud (render_block_cloud p b @ rest) =
      (p, b) # fileBlockMatches_cloud (''\<newline>'' @ rest)"
    using find_from_here [of fileBlockRegex_cloud, OF fileBlockRegex_cloud_block [OF assms, of rest]]
    by (subst fileBlockMatches_cloud.simps) simp
  moreover have "fileBlockRegex_cloud (CHR ''\<newline>'' # rest) = None"
    by (simp add: fileBlockRegex_cloud_def lit_Cons lower_def char_class_defs)
  ultimately show ?thesis by (simp add: fileBlockMatches_cloud_skip)
qed

definition wf_change :: "FileChange \<Rightarrow> bool" where
  "wf_change c \<longleftrightarrow>
     wf_path (filePath c) \<and> (case content c of Some b \<Rightarrow> wf_body b | None \<Rightarrow> False) \<and>
     originalContent c = None"

definition render_change :: "FileChange \<Rightarrow> string" where
  "render_change c = render_block (filePath c) (action c) (the (content c))"

definition wf_file :: "GitHubFile \<Rightarrow> bool" where
  "wf_file f \<longleftrightarrow> wf_path (path f) \<and> wf_body (content_gh f) \<and> sha f = None"

definition render_file :: "GitHubFile \<Rightarrow> string" where
  "render_file f = render_block_cloud (path f) (content_gh f)"

lemma action_of_name: "action_of (trim (action_name a)) = a"
  by (cases a) (simp_all add: action_name_def action_of_def trim_def lower_def char_class_defs)

lemma change_of_match_render:
  assumes "wf_change c"
  shows "change_of_match (filePath c, action_name (action c), the (content c)) = c"
proof -
  from assms have "trim (filePath c) = filePath c"
    by (intro trim_id) (simp_all add: wf_change_def wf_path_def)
  moreover from assms obtain b where "content c = Some b"
    by (auto simp: wf_change_def split: option.splits)
  moreover from assms have "originalContent c = None" by (simp add: wf_change_def)
  ultimately show ?thesis by (simp add: change_of_match_def action_of_name)
qed

lemma file_of_match_render:
  assumes "wf_file f"
  shows "file_of_match (path f, content_gh f) = f"
proof -
  from assms have "trim (path f) = path f"
    by (intro trim_id) (simp_all add: wf_file_def wf_path_def)
  moreover from assms have "sha f = None" by (simp add: wf_file_def)
  ultimately show ?thesis by (simp add: file_of_match_def)
qed

lemma parseFileChanges_rendered:
  "\<forall>c \<in> set cs. wf_change c \<Longrightarrow> parseFileChanges (concat (map render_change cs)) = cs"
proof (induction cs)
  case Nil
  have "fileBlockMatches [] = []"
    by (subst fileBlockMatches.simps) (simp add: fileBlockRegex_def lit_def)
  then show ?case by (simp add: parseFileChanges_def)
next
  case (Cons c cs)
  then have wf: "wf_change c" and IH: "parseFileChanges (concat (map render_change cs)) = cs"
    by simp_all
  from wf obtain b where b: "content c = Some b" "wf_body b" and p: "wf_path (filePath c)"
    by (auto simp: wf_change_def split: option.splits)
  have "fileBlockMatches (render_change c @ concat (map render_change cs)) =
      (filePath c, action_name (action c), b) # fileBlockMatches (concat (map render_change cs))"
    unfolding render_change_def using fileBlockMatches_block [OF p b(2)] by (simp add: b(1))
  then show ?case
    using IH change_of_match_render [OF wf] by (simp add: parseFileChanges_def b(1))
qed

lemma parseFileChanges_cloud_rendered:
  "\<forall>f \<in> set fs. wf_file f \<Longrightarrow> parseFileChanges_cloud (concat (map render_file fs)) = fs"
proof (induction fs)
  case Nil
  have "fileBlockMatches_cloud [] = []"
    by (subst fileBlockMatches_cloud.simps) (simp add: fileBlockRegex_cloud_def lit_def)
  then show ?case by (simp add: parseFileChanges_cloud_def)
next
  case (Cons f fs)
  then have wf: "wf_file f" and IH: "parseFileChanges_cloud (concat (map render_file fs)) = fs"
    by simp_all
  then have "fileBlockMatches_cloud (render_file f @ concat (map render_file fs)) =
      (path f, content_gh f) # fileBlockMatches_cloud (concat (map render_file fs))"
    unfolding render_file_def by (intro fileBlockMatches_cloud_block) (simp_all add: wf_file_def)
  then show ?case
    using IH file_of_match_render [OF wf] by (simp add: parseFileChanges_cloud_def)
qed

text \<open>Sample texts: two well-formed blocks for one path, in either format.\<close>

definition duplicate_blocks :: string where
  "duplicate_blocks =
     ''### FILE: A.swift\<newline>### ACTION: create\<newline>```swift\<newline>one\<newline>```\<newline>'' @
     ''### FILE: A.swift\<newline>### ACTION: modify\<newline>```swift\<newline>two\<newline>```\<newline>''"

definition duplicate_blocks_cloud :: string where
  "duplicate_blocks_cloud =
     ''### FILE: A.swift\<newline>```swift\<newline>one\<newline>```\<newline>'' @
     ''### FILE: A.swift\<newline>```swift\<newline>two\<newline>```\<newline>''"

definition first_change :: FileChange where
  "first_change =
     \<lparr>filePath = ''A.swift'', action = Create, content = Some ''one\<newline>'', originalContent = None\<rparr>"

definition second_change :: FileChange where
  "second_change =
     \<lparr>filePath = ''A.swift'', action = Modify, content = Some ''two\<newline>'', originalContent = None\<rparr>"

definition first_file :: GitHubFile where
  "first_file = \<lparr>path = ''A.swift'', content_gh = ''one\<newline>'', sha = None\<rparr>"

definition second_file :: GitHubFile where
  "second_file = \<lparr>path = ''A.swift'', content_gh = ''two\<newline>'', sha = None\<rparr>"

lemma sample_changes_wf: "wf_change first_change" "wf_change second_change"
  by (simp_all add: first_change_def second_change_def wf_change_def wf_path_def wf_body_def
        char_class_defs)

lemma sample_files_wf: "wf_file first_file" "wf_file second_file"
  by (simp_all add: first_file_def second_file_def wf_file_def wf_path_def wf_body_def
        char_class_defs)

lemma duplicate_blocks_rendered:
  "duplicate_blocks = concat (map render_change [first_change, second_change])"
  by (simp add: render_change_def render_block_def action_name_def first_change_def
        second_change_def duplicate_blocks_def)

lemma duplicate_blocks_cloud_rendered:
  "duplicate_blocks_cloud = concat (map render_file [first_file, second_file])"
  by (simp add: render_file_def render_block_cloud_def first_file_def second_file_def
        duplicate_blocks_cloud_def)

text \<open>
  Claim C9. Parsing is deterministic: every run of the loop of \<open>parseFileChanges\<close> on a
  text ends, and any two runs on the same text end with the same list of operations
  (same paths, actions and contents in the same order), the list the function computes.
  The same holds for the parser of the cloud generator.
\<close>

theorem parseFileChanges_deterministic:
  "parseFileChanges_run response (parseFileChanges response) \<and>
   (\<forall>a b. parseFileChanges_run response a \<and> parseFileChanges_run response b \<longrightarrow> a = b) \<and>
   parseFileChanges_cloud_run response (parseFileChanges_cloud response) \<and>
   (\<forall>a b. parseFileChanges_cloud_run response a \<and> parseFileChanges_cloud_run response b \<longrightarrow> a = b)"
proof (intro conjI allI impI)
  show "parseFileChanges_run response (parseFileChanges response)"
    using exec_run_fileBlock [of change_of_match response 0 "[]"]
    by (simp add: parseFileChanges_run_def parseFileChanges_def)
  show "parseFileChanges_cloud_run response (parseFileChanges_cloud response)"
    using exec_run_fileBlock_cloud [of file_of_match response 0 "[]"]
    by (simp add: parseFileChanges_cloud_run_def parseFileChanges_cloud_def)
next
  fix a b
  assume "parseFileChanges_run response a \<and> parseFileChanges_run response b"
  then show "a = b"
    unfolding parseFileChanges_run_def by (blast intro: exec_run_deterministic)
next
  fix a b
  assume "parseFileChanges_cloud_run response a \<and> parseFileChanges_cloud_run response b"
  then show "a = b"
    unfolding parseFileChanges_cloud_run_def by (blast intro: exec_run_deterministic)
qed

theorem parseFileChanges_deterministic_witness:
  "parseFileChanges_run duplicate_blocks [first_change, second_change] \<and>
   parseFileChanges_run duplicate_blocks (parseFileChanges duplicate_blocks) \<and>
   [first_change, second_change] = parseFileChanges duplicate_blocks \<and>
   parseFileChanges_cloud_run duplicate_blocks_cloud [first_file, second_file] \<and>
   parseFileChanges_cloud_run duplicate_blocks_cloud (parseFileChanges_cloud duplicate_blocks_cloud) \<and>
   [first_file, second_file] = parseFileChanges_cloud duplicate_blocks_cloud"
proof -
  note det = parseFileChanges_deterministic [of duplicate_blocks]
    parseFileChanges_deterministic [of duplicate_blocks_cloud]
  have l: "parseFileChanges duplicate_blocks = [first_change, second_change]"
    unfolding duplicate_blocks_rendered
    by (rule parseFileChanges_rendered) (simp add: sample_changes_wf)
  have c: "parseFileChanges_cloud duplicate_blocks_cloud = [first_file, second_file]"
    unfolding duplicate_blocks_cloud_rendered
    by (rule parseFileChanges_cloud_rendered) (simp add: sample_files_wf)
  from det have runs: "parseFileChanges_run duplicate_blocks (parseFileChanges duplicate_blocks)"
    "parseFileChanges_cloud_run duplicate_blocks_cloud (parseFileChanges_cloud duplicate_blocks_cloud)"
    by blast+
  then have "parseFileChanges_run duplicate_blocks [first_change, second_change]"
    "parseFileChanges_cloud_run duplicate_blocks_cloud [first_file, second_file]"
    by (simp_all only: l c)
  with runs det show ?thesis by blast
qed

text \<open>
  Claim C6, as stated, fails: a text with two well-formed blocks for \<open>A.swift\<close> is parsed
  into two operations for that path, by either parser.
\<close>

theorem parseFileChanges_duplicates_counterexample:
  "map filePath (parseFileChanges duplicate_blocks) = [''A.swift'', ''A.swift''] \<and>
   map path (parseFileChanges_cloud duplicate_blocks_cloud) = [''A.swift'', ''A.swift'']"
  by code_simp

text \<open>
  Claim C6, amended. The parsers neither merge nor drop blocks. A text made of well-formed
  blocks, whatever their paths, is parsed into exactly one operation per block, in the
  order of the text: several blocks for one path give several operations for that path,
  the last occurrence last.
\<close>

theorem parseFileChanges_keeps_every_block:
  "((\<forall>c \<in> set cs. wf_change c) \<longrightarrow> parseFileChanges (concat (map render_change cs)) = cs) \<and>
   ((\<forall>f \<in> set fs. wf_file f) \<longrightarrow> parseFileChanges_cloud (concat (map render_file fs)) = fs)"
  using parseFileChanges_rendered [of cs] parseFileChanges_cloud_rendered [of fs] by blast

theorem parseFileChanges_keeps_every_block_witness:
  "wf_change first_change \<and> wf_change second_change \<and>
   filePath first_change = filePath second_change \<and>
   parseFileChanges duplicate_blocks = [first_change, second_change] \<and>
   wf_file first_file \<and> wf_file second_file \<and> path first_file = path second_file \<and>
   parseFileChanges_cloud duplicate_blocks_cloud = [first_file, second_file]"
proof -
  have 1: "\<forall>c \<in> set [first_change, second_change]. wf_change c"
    and 2: "\<forall>f \<in> set [first_file, second_file]. wf_file f"
    by (simp_all add: sample_changes_wf sample_files_wf)
  from parseFileChanges_keeps_every_block
      [of "[first_change, second_change]" "[first_file, second_file]"] 1 2
  have "parseFileChanges (concat (map render_change [first_change, second_change])) =
      [first_change, second_change]"
    "parseFileChanges_cloud (concat (map render_file [first_file, second_file])) =
      [first_file, second_file]"
    by blast+
  then have "parseFileChanges duplicate_blocks = [first_change, second_change]"
    "parseFileChanges_cloud duplicate_blocks_cloud = [first_file, second_file]"
    by (simp_all only: duplicate_blocks_rendered duplicate_blocks_cloud_rendered)
  moreover have "filePath first_change = filePath second_change" "path first_file = path second_file"
    by (simp_all add: first_change_def second_change_def first_file_def second_file_def)
  ultimately show ?thesis using sample_changes_wf sample_files_wf by blast
qed

section \<open>Context Assembler: back-ticked paths are found\<close>

lemma find_from_complete:
  "m (drop i s) = Some r \<Longrightarrow> i \<le> length s \<Longrightarrow>
   \<exists>pre r'. find_from m s = Some (pre, r') \<and> length pre \<le> i"
proof (induction s arbitrary: i)
  case Nil
  then show ?case by simp
next
  case (Cons c cs)
  show ?case
  proof (cases "m (c # cs)")
    case (Some a)
    then show ?thesis by simp
  next
    case None
    with Cons.prems obtain j where j: "i = Suc j" by (cases i) auto
    with Cons.prems have "m (drop j cs) = Some r" "j \<le> length cs" by simp_all
    from Cons.IH [OF this] obtain pre r' where "find_from m cs = Some (pre, r')" "length pre \<le> j"
      by blast
    with None j show ?thesis by simp
  qed
qed

lemma set_array_from_set: "set (array_from_set xs) = set xs"
proof -
  have "set (foldl set_add acc xs) = set acc \<union> set xs" for acc :: "'a list"
    by (induction xs arbitrary: acc) (auto simp: set_add_def)
  then show ?thesis by (simp add: array_from_set_def)
qed

lemma eq_ci_backtick: "eq_ci m ''`'' \<Longrightarrow> m = ''`''"
proof -
  assume "eq_ci m ''`''"
  then obtain c where "m = [c]" "lower c = lower (CHR 0x60)"
    by (cases m) (auto simp: eq_ci_def)
  then show ?thesis using lower_backtick [of c] lower_backtick [of "CHR 0x60"] by simp
qed

lemma eq_ci_no_backtick:
  "eq_ci x y \<Longrightarrow> CHR 0x60 \<notin> set y \<Longrightarrow> CHR 0x60 \<notin> set x"
proof (induction x arbitrary: y)
  case Nil
  then show ?case by simp
next
  case (Cons c cs)
  then obtain d ds where y: "y = d # ds" "lower c = lower d" "eq_ci cs ds"
    by (cases y) (auto simp: eq_ci_def)
  with Cons.prems(2) have "d \<noteq> CHR 0x60" "CHR 0x60 \<notin> set ds" by auto
  with y have "c \<noteq> CHR 0x60" using lower_backtick [of d] lower_backtick [of c] by metis
  with Cons.IH [OF y(3)] \<open>CHR 0x60 \<notin> set ds\<close> show ?case by simp
qed

text \<open>
  \<open>ends_in_ext exts run\<close>: the text \<open>run\<close> ends, after at least one character, in a dot and
  one of the extensions, up to case.
\<close>

definition ends_in_ext :: "string list \<Rightarrow> string \<Rightarrow> bool" where
  "ends_in_ext exts run \<longleftrightarrow>
     list_ex (\<lambda>e. length e + 1 < length run \<and>
                  eq_ci (drop (length run - (length e + 1)) run) (''.'' @ e)) exts"

text \<open>What a match of the first pattern is: a back-tick, a run without back-ticks that ends in an extension, a back-tick.\<close>

lemma backtickRegex_sound:
  assumes "backtickRegex exts s = Some (cap, rest)" and "\<forall>e \<in> set exts. CHR 0x60 \<notin> set e"
  shows "s = ''`'' @ cap @ ''`'' @ rest \<and> CHR 0x60 \<notin> set cap \<and> ends_in_ext exts cap"
proof -
  from assms(1) obtain m0 s1 stem s2 dot s3 e ext s4 m5 where
    0: "s = m0 @ s1" "eq_ci m0 ''`''" and
    1: "s1 = stem @ s2" "1 \<le> length stem" "\<forall>c \<in> set stem. c \<noteq> CHR 0x60" and
    2: "s2 = dot @ s3" "length dot = length ''.''" "eq_ci dot ''.''" and
    3: "e \<in> set exts" "s3 = ext @ s4" "length ext = length e" "eq_ci ext e" and
    4: "s4 = m5 @ rest" "eq_ci m5 ''`''" "cap = stem @ dot @ ext"
    unfolding backtickRegex_def
    by (elim lit_SomeE many_SomeE alt_lits_SomeE) auto
  have m: "m0 = ''`''" "m5 = ''`''" using 0(2) 4(2) by (auto dest: eq_ci_backtick)
  have s: "s = ''`'' @ cap @ ''`'' @ rest" using 0 1 2 3 4 m by simp
  have "CHR 0x60 \<notin> set dot" using 2(3) by (rule eq_ci_no_backtick) simp
  moreover have "CHR 0x60 \<notin> set ext"
  proof (rule eq_ci_no_backtick [OF 3(4)])
    show "CHR 0x60 \<notin> set e" using assms(2) 3(1) by blast
  qed
  ultimately have nb: "CHR 0x60 \<notin> set cap" using 1(3) 4(3) by auto
  have "length e + 1 < length cap" using 1(2) 2(2) 3(3) 4(3) by auto
  moreover have "drop (length cap - (length e + 1)) cap = dot @ ext"
    using 2(2) 3(3) 4(3) by simp
  moreover have "eq_ci (dot @ ext) (''.'' @ e)" using 2(3) 3(4) by (simp add: eq_ci_def)
  ultimately have "ends_in_ext exts cap" using 3(1) by (auto simp: ends_in_ext_def list_ex_iff)
  with s nb show ?thesis by simp
qed

text \<open>
  \<open>last_span pre\<close> is the text after the last back-tick of \<open>pre\<close> (all of \<open>pre\<close> when it
  has none). The opening back-tick of a path that follows \<open>pre\<close> is free when it cannot
  be taken for the closing back-tick of an earlier match: no back-tick occurs in \<open>pre\<close>,
  or the text after the last one does not end in an extension of the pattern.
\<close>

definition last_span :: "string \<Rightarrow> string" where
  "last_span pre = rev (takeWhile (\<lambda>c. c \<noteq> CHR 0x60) (rev pre))"

definition opener_free :: "string list \<Rightarrow> string \<Rightarrow> bool" where
  "opener_free exts pre \<longleftrightarrow> CHR 0x60 \<notin> set pre \<or> \<not> ends_in_ext exts (last_span pre)"

lemma last_span_no_backtick: "CHR 0x60 \<notin> set u \<Longrightarrow> last_span (xs @ CHR 0x60 # u) = u"
proof -
  assume a: "CHR 0x60 \<notin> set u"
  have "takeWhile (\<lambda>c. c \<noteq> CHR 0x60) (rev u @ CHR 0x60 # rev xs) = rev u"
    using a by (auto simp: takeWhile_tail)
  then show ?thesis by (simp add: last_span_def)
qed

lemma last_span_suffix: "CHR 0x60 \<in> set u \<Longrightarrow> last_span (xs @ u) = last_span u"
proof -
  assume "CHR 0x60 \<in> set u"
  then have "CHR 0x60 \<in> set (rev u)" by simp
  then have "takeWhile (\<lambda>c. c \<noteq> CHR 0x60) (rev u @ rev xs) = takeWhile (\<lambda>c. c \<noteq> CHR 0x60) (rev u)"
    by (rule takeWhile_append1) simp
  then show ?thesis by (simp add: last_span_def)
qed

lemma opener_free_suffix:
  assumes "opener_free exts (xs @ CHR 0x60 # u)" and "u = v @ w" and "CHR 0x60 \<in> set v"
  shows "opener_free exts w"
proof (cases "CHR 0x60 \<in> set w")
  case False
  then show ?thesis by (simp add: opener_free_def)
next
  case True
  have "last_span (xs @ CHR 0x60 # u) = last_span w"
    using last_span_suffix [OF True, of "xs @ CHR 0x60 # v"] assms(2) by simp
  with assms(1) show ?thesis by (auto simp: opener_free_def)
qed

lemma backticked_found:
  assumes T: "\<And>post. backtickRegex exts (''`'' @ p @ ''`'' @ post) = Some (p, post)"
    and nb: "\<forall>e \<in> set exts. CHR 0x60 \<notin> set e"
    and H: "opener_free exts pre"
  shows "p \<in> set (matchAll (backtickRegex exts) (pre @ ''`'' @ p @ ''`'' @ post))"
  using H
proof (induction "length pre" arbitrary: pre rule: less_induct)
  case less
  let ?T = "''`'' @ p @ ''`'' @ post"
  let ?s = "pre @ ?T"
  have "backtickRegex exts (drop (length pre) ?s) = Some (p, post)" using T by simp
  from find_from_complete [where m = "backtickRegex exts" and i = "length pre" and s = ?s, OF this]
  obtain pre0 cap rest where
    f: "find_from (backtickRegex exts) ?s = Some (pre0, cap, rest)" and le: "length pre0 \<le> length pre"
    by auto
  from f obtain s' where s': "?s = pre0 @ s'" "backtickRegex exts s' = Some (cap, rest)"
    by (rule find_from_SomeE)
  from backtickRegex_sound [OF s'(2) nb]
  have m: "s' = ''`'' @ cap @ ''`'' @ rest" "CHR 0x60 \<notin> set cap" "ends_in_ext exts cap"
    by simp_all
  have "length ?s = length pre0 + length s'" using arg_cong [OF s'(1), of length] by simp
  moreover have "length s' = length cap + length rest + 2" using arg_cong [OF m(1), of length] by simp
  ultimately have shorter: "length rest < length ?s - length pre0" by simp
  have unfold: "matchAll (backtickRegex exts) ?s = cap # matchAll (backtickRegex exts) rest"
    using f shorter by (subst matchAll.simps) simp
  show ?case
  proof (cases "length pre0 = length pre")
    case True
    with s'(1) have "s' = ?T" by (simp add: append_eq_append_conv)
    with s'(2) T have "cap = p" by simp
    with unfold show ?thesis by simp
  next
    case False
    with le have "length pre0 < length pre" by simp
    define u where "u = drop (length pre0) pre"
    have "take (length pre0) (pre @ ?T) = take (length pre0) (pre0 @ s')" using s'(1) by simp
    then have p0: "pre0 = take (length pre0) pre" using le by simp
    then have u1: "pre = pre0 @ u" unfolding u_def by (metis append_take_drop_id)
    with s'(1) have u3: "s' = u @ ?T" by simp
    have u2: "u \<noteq> []" using \<open>length pre0 < length pre\<close> by (simp add: u_def)
    note u = u1 u2 u3
    with m(1) obtain u' where u': "u = CHR 0x60 # u'" "u' @ ?T = cap @ ''`'' @ rest"
      by (cases u) auto
    show ?thesis
    proof (cases "CHR 0x60 \<in> set u'")
      case no: False
      have "takeWhile (\<lambda>c. c \<noteq> CHR 0x60) (u' @ ?T) = u'" using no
        by (subst takeWhile_append2) auto
      moreover have "takeWhile (\<lambda>c. c \<noteq> CHR 0x60) (cap @ ''`'' @ rest) = cap" using m(2)
        by (subst takeWhile_append2) auto
      ultimately have "cap = u'" using u'(2) by simp
      then have "last_span pre = cap" using u(1) u'(1) no by (simp add: last_span_no_backtick)
      moreover have "CHR 0x60 \<in> set pre" using u(1) u'(1) by simp
      ultimately have "\<not> opener_free exts pre" using m(3) by (simp add: opener_free_def)
      with less.prems show ?thesis by simp
    next
      case yes: True
      have "takeWhile (\<lambda>c. c \<noteq> CHR 0x60) (cap @ ''`'' @ rest) = cap" using m(2)
        by (subst takeWhile_append2) auto
      moreover have "takeWhile (\<lambda>c. c \<noteq> CHR 0x60) (u' @ ?T) = takeWhile (\<lambda>c. c \<noteq> CHR 0x60) u'"
        using yes by (subst takeWhile_append1) auto
      ultimately have c: "cap = takeWhile (\<lambda>c. c \<noteq> CHR 0x60) u'" using u'(2) by simp
      have "dropWhile (\<lambda>c. c \<noteq> CHR 0x60) u' \<noteq> []" using yes by (simp add: dropWhile_eq_Nil_conv)
      then obtain d w where dw: "dropWhile (\<lambda>c. c \<noteq> CHR 0x60) u' = d # w"
        by (cases "dropWhile (\<lambda>c. c \<noteq> CHR 0x60) u'") auto
      from hd_dropWhile [of "\<lambda>c. c \<noteq> CHR 0x60" u'] dw have "d = CHR 0x60" by auto
      with dw c takeWhile_dropWhile_id [of "\<lambda>c. c \<noteq> CHR 0x60" u']
      have w: "u' = cap @ CHR 0x60 # w" by simp
      with u'(2) have rest: "rest = w @ ?T" by simp
      have "opener_free exts w"
        using less.prems u(1) u'(1) w
        by (intro opener_free_suffix [of exts pre0 u' "cap @ [CHR 0x60]" w]) simp_all
      moreover have "length w < length pre" using u(1) u'(1) w by simp
      ultimately have "p \<in> set (matchAll (backtickRegex exts) (w @ ?T))" by (rule less.hyps [rotated])
      with unfold rest show ?thesis by simp
    qed
  qed
qed

text \<open>The pattern matches the path between its back-ticks, whatever follows.\<close>

lemma backtickRegex_path:
  assumes "e \<in> set [''swift'', ''graphql'', ''json'']"
  shows "backtickRegex [''swift'', ''graphql'', ''json'', ''md'', ''txt'']
           (''`'' @ (''src/Foo.'' @ e) @ ''`'' @ post) = Some (''src/Foo.'' @ e, post)"
  using assms
  by (auto simp: backtickRegex_def many_def lit_Cons lit_Nil lower_def char_class_defs)

lemma backtickRegex_path_gh:
  assumes "e \<in> set [''swift'', ''graphql'', ''json'', ''md'', ''sh'', ''txt'']"
  shows "backtickRegex [''swift'', ''graphql'', ''json'', ''md'', ''txt'', ''sh'']
           (''`'' @ (''src/Foo.'' @ e) @ ''`'' @ post) = Some (''src/Foo.'' @ e, post)"
  using assms
  by (auto simp: backtickRegex_def many_def lit_Cons lit_Nil lower_def char_class_defs)

text \<open>The captured path passes the clean-up and the filter unchanged.\<close>

lemma paths_of_match_path:
  "e \<in> set [''swift'', ''graphql'', ''json''] \<Longrightarrow>
   paths_of_match (''src/Foo.'' @ e) = [''src/Foo.'' @ e]"
proof -
  have "paths_of_match ''src/Foo.swift'' = [''src/Foo.swift'']" by code_simp
  moreover have "paths_of_match ''src/Foo.graphql'' = [''src/Foo.graphql'']" by code_simp
  moreover have "paths_of_match ''src/Foo.json'' = [''src/Foo.json'']" by code_simp
  moreover assume "e \<in> set [''swift'', ''graphql'', ''json'']"
  ultimately show ?thesis by auto
qed

lemma paths_of_match_gh_path:
  "e \<in> set [''swift'', ''graphql'', ''json'', ''md'', ''sh'', ''txt''] \<Longrightarrow>
   paths_of_match_gh (''src/Foo.'' @ e) = [''src/Foo.'' @ e]"
proof -
  have "paths_of_match_gh ''src/Foo.swift'' = [''src/Foo.swift'']" by code_simp
  moreover have "paths_of_match_gh ''src/Foo.graphql'' = [''src/Foo.graphql'']" by code_simp
  moreover have "paths_of_match_gh ''src/Foo.json'' = [''src/Foo.json'']" by code_simp
  moreover have "paths_of_match_gh ''src/Foo.md'' = [''src/Foo.md'']" by code_simp
  moreover have "paths_of_match_gh ''src/Foo.sh'' = [''src/Foo.sh'']" by code_simp
  moreover have "paths_of_match_gh ''src/Foo.txt'' = [''src/Foo.txt'']" by code_simp
  moreover assume "e \<in> set [''swift'', ''graphql'', ''json'', ''md'', ''sh'', ''txt'']"
  ultimately show ?thesis by auto
qed

text \<open>
  Claim C4, as stated, fails. The path \<open>src/Foo.ext\<close> in back-ticks is returned by neither
  function: \<open>ext\<close> is no extension of the pattern. The local function does not return
  \<open>src/Foo.md\<close> either, which its pattern matches and its filter drops. And a path with an
  extension of the allow-list is missed when its opening back-tick is taken for the
  closing back-tick of an earlier match.
\<close>

theorem extractFilePaths_counterexample:
  "extractFilePaths ''Edit `src/Foo.ext` first'' = [] \<and>
   extractFilePaths_gh ''Edit `src/Foo.ext` first'' = [] \<and>
   extractFilePaths ''Edit `src/Foo.md` first'' = [] \<and>
   extractFilePaths ''See `a.json`src/Foo.swift` first'' = [''a.json''] \<and>
   extractFilePaths_gh ''See `a.json`src/Foo.swift` first'' = [''a.json'']"
  by code_simp

text \<open>
  Claim C4, amended. Let the description contain the path \<open>src/Foo.\<close> followed by an
  extension of the allow-list, between two back-ticks, and let the text before the
  opening back-tick have no back-tick, or not end, after its last back-tick, in a
  character, a dot and an extension of the pattern. Then the list that \<open>extractFilePaths\<close>
  returns includes the path verbatim. The allow-list of the local function is swift,
  graphql and json, and its pattern also has md and txt; the cloud variant has swift,
  graphql, json, md, sh and txt in both.
\<close>

theorem extractFilePaths_backticked:
  "(e \<in> set [''swift'', ''graphql'', ''json''] \<and>
    opener_free [''swift'', ''graphql'', ''json'', ''md'', ''txt''] pre \<longrightarrow>
      ''src/Foo.'' @ e \<in> set (extractFilePaths (pre @ ''`'' @ (''src/Foo.'' @ e) @ ''`'' @ post))) \<and>
   (e \<in> set [''swift'', ''graphql'', ''json'', ''md'', ''sh'', ''txt''] \<and>
    opener_free [''swift'', ''graphql'', ''json'', ''md'', ''txt'', ''sh''] pre \<longrightarrow>
      ''src/Foo.'' @ e \<in> set (extractFilePaths_gh (pre @ ''`'' @ (''src/Foo.'' @ e) @ ''`'' @ post)))"
proof (intro conjI impI)
  let ?p = "''src/Foo.'' @ e"
  let ?d = "pre @ ''`'' @ ?p @ ''`'' @ post"
  assume a: "e \<in> set [''swift'', ''graphql'', ''json''] \<and>
    opener_free [''swift'', ''graphql'', ''json'', ''md'', ''txt''] pre"
  let ?exts = "[''swift'', ''graphql'', ''json'', ''md'', ''txt'']"
  have "?p \<in> set (matchAll (backtickRegex ?exts) ?d)"
  proof (rule backticked_found)
    show "backtickRegex ?exts (''`'' @ ?p @ ''`'' @ post') = Some (?p, post')" for post'
      using a by (intro backtickRegex_path) simp
    show "\<forall>x \<in> set ?exts. CHR 0x60 \<notin> set x" by simp
    show "opener_free ?exts pre" using a by simp
  qed
  moreover have "paths_of_match ?p = [?p]" using a by (intro paths_of_match_path) simp
  ultimately have "?p \<in> set (concat (map paths_of_match (matchAll (backtickRegex ?exts) ?d)))"
    by (auto intro!: bexI [of _ ?p])
  then show "?p \<in> set (extractFilePaths ?d)"
    unfolding extractFilePaths_def set_array_from_set by simp
next
  let ?p = "''src/Foo.'' @ e"
  let ?d = "pre @ ''`'' @ ?p @ ''`'' @ post"
  assume a: "e \<in> set [''swift'', ''graphql'', ''json'', ''md'', ''sh'', ''txt''] \<and>
    opener_free [''swift'', ''graphql'', ''json'', ''md'', ''txt'', ''sh''] pre"
  let ?exts = "[''swift'', ''graphql'', ''json'', ''md'', ''txt'', ''sh'']"
  have "?p \<in> set (matchAll (backtickRegex ?exts) ?d)"
  proof (rule backticked_found)
    show "backtickRegex ?exts (''`'' @ ?p @ ''`'' @ post') = Some (?p, post')" for post'
      using a by (intro backtickRegex_path_gh) simp
    show "\<forall>x \<in> set ?exts. CHR 0x60 \<notin> set x" by simp
    show "opener_free ?exts pre" using a by simp
  qed
  moreover have "paths_of_match_gh ?p = [?p]" using a by (intro paths_of_match_gh_path) simp
  ultimately have "?p \<in> set (concat (map paths_of_match_gh (matchAll (backtickRegex ?exts) ?d)))"
    by (auto intro!: bexI [of _ ?p])
  then show "?p \<in> set (extractFilePaths_gh ?d)"
    unfolding extractFilePaths_gh_def set_array_from_set by simp
qed

theorem extractFilePaths_backticked_witness:
  "opener_free [''swift'', ''graphql'', ''json'', ''md'', ''txt''] ''Edit `a.md` and '' \<and>
   ''src/Foo.swift'' \<in> set (extractFilePaths ''Edit `a.md` and `src/Foo.swift`, then build'') \<and>
   opener_free [''swift'', ''graphql'', ''json'', ''md'', ''txt'', ''sh''] ''Run '' \<and>
   ''src/Foo.sh'' \<in> set (extractFilePaths_gh ''Run `src/Foo.sh`:12'')"
proof -
  have 1: "opener_free [''swift'', ''graphql'', ''json'', ''md'', ''txt''] ''Edit `a.md` and ''"
    by code_simp
  have 2: "opener_free [''swift'', ''graphql'', ''json'', ''md'', ''txt'', ''sh''] ''Run ''"
    by code_simp
  from extractFilePaths_backticked [of "''swift''" "''Edit `a.md` and ''" "'', then build''"] 1
  have 3: "''src/Foo.swift'' \<in> set (extractFilePaths ''Edit `a.md` and `src/Foo.swift`, then build'')"
    by simp
  from extractFilePaths_backticked [of "''sh''" "''Run ''" "'':12''"] 2
  have 4: "''src/Foo.sh'' \<in> set (extractFilePaths_gh ''Run `src/Foo.sh`:12'')"
    by simp
  from 1 2 3 4 show ?thesis by blast
qed

section \<open>Validation Adapter (validator.ts)\<close>

text \<open>
  \<open>errorRegex\<close> and \<open>warningRegex\<close> differ in their keyword only:
  \<open>/([^:\n]+):(\d+):(\d+):\s*error:\s*(.+)/gi\<close>.
\<close>

definition diagnosticRegex :: "string \<Rightarrow> string \<Rightarrow> ((string \<times> string \<times> string) \<times> string) option" where
  "diagnosticRegex keyword =
     many (\<lambda>c. c \<noteq> CHR '':'' \<and> c \<noteq> CHR 0x0A) 1 (\<lambda>file.
     lit '':'' (\<lambda>_.
     many is_digit 1 (\<lambda>line.
     lit '':'' (\<lambda>_.
     many is_digit 1 (\<lambda>_.
     lit '':'' (\<lambda>_.
     many is_space 0 (\<lambda>_.
     lit keyword (\<lambda>_.
     many is_space 0 (\<lambda>_.
     many is_dot 1 (\<lambda>message rest. Some ((file, line, message), rest)))))))))))"

definition errorRegex :: "string \<Rightarrow> ((string \<times> string \<times> string) \<times> string) option" where
  "errorRegex = diagnosticRegex ''error:''"

definition warningRegex :: "string \<Rightarrow> ((string \<times> string \<times> string) \<times> string) option" where
  "warningRegex = diagnosticRegex ''warning:''"

lemma diagnosticRegex_progress:
  "diagnosticRegex keyword s = Some (cap, rest) \<Longrightarrow> length rest < length s"
  unfolding diagnosticRegex_def
  by (elim lit_SomeE many_SomeE) auto

text \<open>The loop \<open>while ((match = regex.exec(output)) !== null)\<close> over either pattern.\<close>

function diagnosticMatches :: "string \<Rightarrow> string \<Rightarrow> (string \<times> string \<times> string) list" where
  "diagnosticMatches keyword s =
     (case find_from (diagnosticRegex keyword) s of
        None \<Rightarrow> []
      | Some (pre, cap, rest) \<Rightarrow> cap # diagnosticMatches keyword rest)"
  by pat_completeness auto
termination
proof (relation "measure (\<lambda>(keyword, s). length s)")
  fix keyword s :: string and x pre y cap rest
  assume "find_from (diagnosticRegex keyword) s = Some x" "(pre, y) = x" "(cap, rest) = y"
  then have "find_from (diagnosticRegex keyword) s = Some (pre, cap, rest)" by simp
  then obtain s' where "s = pre @ s'" "diagnosticRegex keyword s' = Some (cap, rest)"
    by (rule find_from_SomeE)
  then show "((keyword, rest), (keyword, s)) \<in> measure (\<lambda>(keyword, s). length s)"
    using diagnosticRegex_progress [of keyword s' cap rest] by simp
qed simp

declare diagnosticMatches.simps [simp del]

text \<open>
  \<open>generalErrorRegex\<close>, \<open>/\*\*\s*BUILD FAILED\s*\*\*|fatal error:\s*(.+)/gi\<close>: the result
  holds the capture of the second alternative (undefined in the first) and the whole
  match.
\<close>

definition generalErrorRegex :: "string \<Rightarrow> ((string option \<times> string) \<times> string) option" where
  "generalErrorRegex s =
     (case lit ''**'' (\<lambda>a.
           many is_space 0 (\<lambda>b.
           lit ''BUILD FAILED'' (\<lambda>c.
           many is_space 0 (\<lambda>d.
           lit ''**'' (\<lambda>e rest. Some ((None, a @ b @ c @ d @ e), rest)))))) s of
        Some r \<Rightarrow> Some r
      | None \<Rightarrow>
          lit ''fatal error:'' (\<lambda>a.
          many is_space 0 (\<lambda>b.
          many is_dot 1 (\<lambda>message rest. Some ((Some message, a @ b @ message), rest)))) s)"

lemma generalErrorRegex_progress:
  "generalErrorRegex s = Some (cap, rest) \<Longrightarrow> length rest < length s"
  unfolding generalErrorRegex_def
  by (auto split: option.splits elim!: lit_SomeE many_SomeE)

function generalErrorMatches :: "string \<Rightarrow> (string option \<times> string) list" where
  "generalErrorMatches s =
     (case find_from generalErrorRegex s of
        None \<Rightarrow> []
      | Some (pre, cap, rest) \<Rightarrow> cap # generalErrorMatches rest)"
  by pat_completeness auto
termination
proof (relation "measure length")
  fix s :: string and x pre y cap rest
  assume "find_from generalErrorRegex s = Some x" "(pre, y) = x" "(cap, rest) = y"
  then have "find_from generalErrorRegex s = Some (pre, cap, rest)" by simp
  then obtain s' where "s = pre @ s'" "generalErrorRegex s' = Some (cap, rest)"
    by (rule find_from_SomeE)
  then show "(rest, s) \<in> measure length"
    using generalErrorRegex_progress [of s' cap rest] by simp
qed simp

declare generalErrorMatches.simps [simp del]

definition format_diagnostic :: "string \<times> string \<times> string \<Rightarrow> string" where
  "format_diagnostic m = (case m of (file, line, message) \<Rightarrow> file @ '':'' @ line @ '' - '' @ message)"

text \<open>The body of the second loop of \<open>extractErrors\<close>: \<open>match[1] || match[0]\<close>, pushed when new.\<close>

definition push_general :: "string list \<Rightarrow> string option \<times> string \<Rightarrow> string list" where
  "push_general errs m =
     (let errorMsg = (case fst m of Some g \<Rightarrow> if g \<noteq> [] then g else snd m | None \<Rightarrow> snd m)
      in if errorMsg \<noteq> [] \<and> \<not> list_ex (\<lambda>e. includes_str e errorMsg) errs
         then errs @ [errorMsg] else errs)"

definition extractErrors :: "string \<Rightarrow> string list" where
  "extractErrors out =
     take 10 (foldl push_general (map format_diagnostic (diagnosticMatches ''error:'' out))
                (generalErrorMatches out))"

definition extractWarnings :: "string \<Rightarrow> string list" where
  "extractWarnings out = take 5 (map format_diagnostic (diagnosticMatches ''warning:'' out))"

record ValidationResult =
  success :: bool
  errors :: "string list"
  warnings :: "string list"
  output_str :: string

text \<open>
  The outcome of \<open>execAsync\<close>: the promise resolves with the two output streams, or it
  rejects (non-zero exit status, timeout, spawn failure) with an error that carries a
  message and the output captured so far.
\<close>

datatype exec_result =
    Resolved string string
  | Rejected string string string

definition validateBuild :: "exec_result \<Rightarrow> ValidationResult" where
  "validateBuild r =
     (case r of
        Resolved stdout stderr \<Rightarrow>
          (let out = stdout @ ''\<newline>'' @ stderr
           in if includes_str out ''BUILD SUCCEEDED''
              then \<lparr>success = True, errors = [], warnings = extractWarnings out, output_str = out\<rparr>
              else \<lparr>success = False, errors = extractErrors out,
                    warnings = extractWarnings out, output_str = out\<rparr>)
      | Rejected message stdout stderr \<Rightarrow>
          (let out = stdout @ ''\<newline>'' @ stderr;
               errs = extractErrors out
           in \<lparr>success = False, errors = (if errs \<noteq> [] then errs else [message]),
               warnings = extractWarnings out, output_str = out\<rparr>))"

definition validateSyntax :: "exec_result \<Rightarrow> ValidationResult" where
  "validateSyntax r =
     (case r of
        Resolved stdout stderr \<Rightarrow>
          (let out = stdout @ stderr;
               errs = extractErrors out
           in if errs = []
              then \<lparr>success = True, errors = [], warnings = extractWarnings out, output_str = out\<rparr>
              else \<lparr>success = False, errors = errs, warnings = [], output_str = out\<rparr>)
      | Rejected message stdout stderr \<Rightarrow>
          \<lparr>success = False, errors = [message], warnings = [], output_str = message\<rparr>)"

text \<open>\<open>isXcodebuildAvailable\<close>, from the outcome of \<open>which xcodebuild\<close>.\<close>

definition isXcodebuildAvailable :: "exec_result \<Rightarrow> bool" where
  "isXcodebuildAvailable r = (case r of Resolved _ _ \<Rightarrow> True | Rejected _ _ _ \<Rightarrow> False)"

lemma extractErrors_length: "length (extractErrors out) \<le> 10"
  by (simp add: extractErrors_def)

lemma extractWarnings_length: "length (extractWarnings out) \<le> 5"
  by (simp add: extractWarnings_def)

lemma validateBuild_errors_length: "length (errors (validateBuild r)) \<le> 10"
proof (cases r)
  case (Resolved stdout stderr)
  then show ?thesis
    by (simp add: validateBuild_def Let_def extractErrors_length)
next
  case (Rejected message stdout stderr)
  then show ?thesis
    by (simp add: validateBuild_def Let_def extractErrors_length)
qed

lemma validateBuild_warnings_length: "length (warnings (validateBuild r)) \<le> 5"
  by (cases r) (simp_all add: validateBuild_def Let_def extractWarnings_length)

lemma validateSyntax_errors_length: "length (errors (validateSyntax r)) \<le> 10"
  by (cases r) (simp_all add: validateSyntax_def Let_def extractErrors_length)

lemma validateSyntax_warnings_length: "length (warnings (validateSyntax r)) \<le> 5"
  by (cases r) (simp_all add: validateSyntax_def Let_def extractWarnings_length)

text \<open>
  Claim C8. Whatever the tool printed and however the invocation ended, the result of
  \<open>validateBuild\<close> and of \<open>validateSyntax\<close> carries at most 10 errors and at most 5
  warnings, as do the lists of \<open>extractErrors\<close> and \<open>extractWarnings\<close> for every output.
\<close>

theorem validation_lists_capped:
  "length (errors (validateBuild r)) \<le> 10 \<and> length (warnings (validateBuild r)) \<le> 5 \<and>
   length (errors (validateSyntax r)) \<le> 10 \<and> length (warnings (validateSyntax r)) \<le> 5 \<and>
   length (extractErrors out) \<le> 10 \<and> length (extractWarnings out) \<le> 5"
  using validateBuild_errors_length validateBuild_warnings_length
    validateSyntax_errors_length validateSyntax_warnings_length
    extractErrors_length extractWarnings_length
  by blast

text \<open>
  Claim C7, as stated, fails: when \<open>exec\<close> rejects after the tool printed two compiler
  errors (a timeout in mid-build, or a non-zero exit status), \<open>validateBuild\<close> reports the
  two extracted errors, not one synthetic entry.
\<close>

theorem validateBuild_rejected_counterexample:
  "errors (validateBuild (Rejected ''Command failed: xcodebuild''
      ''A.swift:1:2: error: x\<newline>B.swift:3:4: error: y'' [])) =
     [''A.swift:1 - x'', ''B.swift:3 - y'']"
  by code_simp

text \<open>
  Claim C7, amended. When \<open>exec\<close> rejects, \<open>validateBuild\<close> returns a result (it has no
  error outcome) with \<open>success = false\<close>; its errors are the errors extracted from the
  captured output when there are any (at most 10), and otherwise exactly one synthetic
  entry, the message of the rejection.
\<close>

theorem validateBuild_rejected:
  "\<not> success (validateBuild (Rejected message stdout stderr)) \<and>
   errors (validateBuild (Rejected message stdout stderr)) =
     (if extractErrors (stdout @ ''\<newline>'' @ stderr) = [] then [message]
      else extractErrors (stdout @ ''\<newline>'' @ stderr)) \<and>
   1 \<le> length (errors (validateBuild (Rejected message stdout stderr))) \<and>
   length (errors (validateBuild (Rejected message stdout stderr))) \<le> 10"
proof -
  let ?out = "stdout @ ''\<newline>'' @ stderr"
  let ?v = "validateBuild (Rejected message stdout stderr)"
  have s: "\<not> success ?v" by (simp add: validateBuild_def Let_def)
  have e: "errors ?v = (if extractErrors ?out = [] then [message] else extractErrors ?out)"
    by (simp add: validateBuild_def Let_def)
  have "errors ?v \<noteq> []" unfolding e by simp
  then have l: "1 \<le> length (errors ?v)" by (cases "errors ?v") simp_all
  from s e l validateBuild_errors_length [of "Rejected message stdout stderr"]
  show ?thesis by blast
qed

section \<open>Code generation (code-generator.ts)\<close>

text \<open>
  \<open>extractSection\<close> builds the pattern \<open>##\s*NAME\s*\n([\s\S]*?)(?=\n##|$)\<close> with the flag
  \<open>i\<close> and takes its first match.
\<close>

definition sectionRegex :: "string \<Rightarrow> string \<Rightarrow> (string \<times> string) option" where
  "sectionRegex sectionName =
     lit ''##'' (\<lambda>_.
     many is_space 0 (\<lambda>_.
     lit sectionName (\<lambda>_.
     many is_space 0 (\<lambda>_.
     lit ''\<newline>'' (\<lambda>_.
     many_lazy any_char 0 (\<lambda>body rest.
       if take 3 rest = ''\<newline>##'' \<or> rest = [] then Some (body, rest) else None))))))"

definition extractSection :: "string \<Rightarrow> string \<Rightarrow> string" where
  "extractSection text sectionName =
     (case find_from (sectionRegex sectionName) text of
        Some (pre, body, rest) \<Rightarrow> trim body
      | None \<Rightarrow> sectionName @ '' not provided'')"

record CodeGenerationResult =
  changes :: "FileChange list"
  summary :: string
  testingNotes :: string
  thinkingProcess :: string

text \<open>
  What ends a run without a result: a rejected call of the file system, a rejected
  request to the issue tracker or to the model, the \<open>TypeError\<close> of a method call on
  \<open>undefined\<close>, and the \<open>Error\<close> thrown after the loop of \<open>implementWithValidation\<close>.
\<close>

datatype error =
    FileSystem io_error
  | ServiceError string
  | TypeError string
  | ImplementationFailed

text \<open>
  The collaborators and the inputs of one run: the checkout the file operations work
  on, the description of the issue, absent when the issue has none; the error, if any,
  that the n-th call of \<open>issue.labels()\<close> is rejected with; what the n-th call of the
  model (both counted from 0) ends with, an error or the text of the last text block of
  the answer; the outcome of \<open>which xcodebuild\<close>; and the outcome of the n-th build
  (counted from 0) on the file system it runs on.
\<close>

record env =
  repoPath :: string
  description :: "string option"
  labels :: "nat \<Rightarrow> string option"
  claude :: "nat \<Rightarrow> string + string"
  which_xcodebuild :: exec_result
  xcodebuild :: "nat \<Rightarrow> fs \<Rightarrow> exec_result"

text \<open>
  \<open>gatherContext\<close> starts with \<open>extractFilePaths(issue.description)\<close>, which calls
  \<open>description.matchAll\<close>: a \<open>TypeError\<close> when the issue has no description. The files it
  then reads enter the prompt only, and a file it cannot read is skipped.
\<close>

definition gatherContext :: "string option \<Rightarrow> error + string list" where
  "gatherContext d =
     (case d of
        None \<Rightarrow> Inl (TypeError ''Cannot read properties of undefined (reading matchAll)'')
      | Some text \<Rightarrow> Inr (extractFilePaths text))"

text \<open>The object \<open>generateImplementation\<close> returns for the text of an answer.\<close>

definition codeGenerationResult :: "string \<Rightarrow> CodeGenerationResult" where
  "codeGenerationResult text =
     \<lparr>changes = parseFileChanges text,
      summary = extractSection text ''Implementation Summary'',
      testingNotes = extractSection text ''Testing Notes'',
      thinkingProcess = []\<rparr>"

text \<open>
  \<open>generateImplementation\<close>, from the number of calls of the model made so far, which it
  returns updated: it awaits the labels of the issue, the context and the answer of the
  model, and a rejection of any of them ends it. The model is called once, after the
  first two have succeeded. The prompt does not enter the result.
\<close>

definition generateImplementation :: "env \<Rightarrow> nat \<Rightarrow> (error + CodeGenerationResult) \<times> nat" where
  "generateImplementation e calls =
     (case labels e calls of
        Some message \<Rightarrow> (Inl (ServiceError message), calls)
      | None \<Rightarrow>
          (case gatherContext (description e) of
             Inl err \<Rightarrow> (Inl err, calls)
           | Inr context \<Rightarrow>
               (case claude e calls of
                  Inl message \<Rightarrow> (Inl (ServiceError message), Suc calls)
                | Inr text \<Rightarrow> (Inr (codeGenerationResult text), Suc calls))))"

section \<open>Retry Orchestrator: implementWithValidation (claude-automation-v2)\<close>

text \<open>
  The state a run changes: the file system, the two fields it adds to the issue, and,
  as a record of the run, the number of calls of the model made and the file systems the
  build validation ran on, in order.
\<close>

record run_state =
  working_tree :: fs
  buildErrors :: "string list option"
  previousAttempt :: "CodeGenerationResult option"
  gen_calls :: nat
  validated :: "fs list"

record implementation =
  success_impl :: bool
  attempts :: nat
  result :: CodeGenerationResult
  validation :: "ValidationResult option"

text \<open>
  The \<open>for\<close> loop, from the attempt it is about to run. A rejected \<open>generateImplementation\<close>
  or \<open>applyChanges\<close> leaves the function with its error; the \<open>throw\<close> after the loop is the
  last branch.
\<close>

function attempt_loop ::
  "env \<Rightarrow> bool \<Rightarrow> nat \<Rightarrow> nat \<Rightarrow> run_state \<Rightarrow> (error + implementation) \<times> run_state" where
  "attempt_loop e canBuild maxAttempts attempt st =
     (if attempt \<le> maxAttempts then
        (case generateImplementation e (gen_calls st) of
           (Inl err, calls) \<Rightarrow> (Inl err, st\<lparr>gen_calls := calls\<rparr>)
         | (Inr res, calls) \<Rightarrow>
        (let st1 = st\<lparr>gen_calls := calls\<rparr>
         in if changes res = [] then
              (if attempt = maxAttempts
               then (Inr \<lparr>success_impl = False, attempts = attempt, result = res,
                          validation = None\<rparr>, st1)
               else attempt_loop e canBuild maxAttempts (Suc attempt) st1)
            else
              (case applyChanges (repoPath e) (changes res) (working_tree st1) of
                 (Inl err, t) \<Rightarrow> (Inl (FileSystem err), st1\<lparr>working_tree := t\<rparr>)
               | (Inr _, t) \<Rightarrow>
                   (let st2 = st1\<lparr>working_tree := t\<rparr>
                    in if \<not> canBuild
                       then (Inr \<lparr>success_impl = True, attempts = attempt, result = res,
                                  validation = None\<rparr>, st2)
                       else
                         (let v = validateBuild (xcodebuild e (length (validated st2)) t);
                              st3 = st2\<lparr>validated := validated st2 @ [t]\<rparr>
                          in if success v
                             then (Inr \<lparr>success_impl = True, attempts = attempt, result = res,
                                        validation = Some v\<rparr>, st3)
                             else if attempt < maxAttempts
                             then attempt_loop e canBuild maxAttempts (Suc attempt)
                                    (st3\<lparr>buildErrors := Some (errors v),
                                         previousAttempt := Some res\<rparr>)
                             else (Inr \<lparr>success_impl = False, attempts = attempt, result = res,
                                        validation = Some v\<rparr>, st3))))))
      else (Inl ImplementationFailed, st))"
  by pat_completeness auto
termination
  by (relation "measure (\<lambda>(e, canBuild, maxAttempts, attempt, st). Suc maxAttempts - attempt)") auto

declare attempt_loop.simps [simp del]

definition implementWithValidation ::
  "env \<Rightarrow> nat \<Rightarrow> run_state \<Rightarrow> (error + implementation) \<times> run_state" where
  "implementWithValidation e maxAttempts st =
     (let canBuild = isXcodebuildAvailable (which_xcodebuild e)
      in attempt_loop e canBuild maxAttempts 1 st)"

text \<open>The state a run starts from: a file system, an issue without the added fields.\<close>

definition initial_state :: "fs \<Rightarrow> run_state" where
  "initial_state t =
     \<lparr>working_tree = t, buildErrors = None, previousAttempt = None, gen_calls = 0, validated = []\<rparr>"

subsection \<open>One turn of the loop\<close>

definition generated :: "env \<Rightarrow> run_state \<Rightarrow> error + CodeGenerationResult" where
  "generated e st = fst (generateImplementation e (gen_calls st))"

definition called :: "env \<Rightarrow> run_state \<Rightarrow> run_state" where
  "called e st = st\<lparr>gen_calls := snd (generateImplementation e (gen_calls st))\<rparr>"

definition built :: "env \<Rightarrow> run_state \<Rightarrow> fs \<Rightarrow> ValidationResult" where
  "built e st t = validateBuild (xcodebuild e (length (validated st)) t)"

lemma attempt_loop_cases [consumes 1, case_names Generation_error Empty_last Empty_next Apply_error
    Unavailable Passed Failed_next Failed_last]:
  assumes "attempt \<le> maxAttempts"
  obtains
    err where "generated e st = Inl err"
    "attempt_loop e canBuild maxAttempts attempt st = (Inl err, called e st)"
  | res where "generated e st = Inr res" "changes res = []" "attempt = maxAttempts"
    "attempt_loop e canBuild maxAttempts attempt st =
       (Inr \<lparr>success_impl = False, attempts = attempt, result = res, validation = None\<rparr>,
        called e st)"
  | res where "generated e st = Inr res" "changes res = []" "attempt < maxAttempts"
    "attempt_loop e canBuild maxAttempts attempt st =
       attempt_loop e canBuild maxAttempts (Suc attempt) (called e st)"
  | res err t where "generated e st = Inr res" "changes res \<noteq> []"
    "applyChanges (repoPath e) (changes res) (working_tree st) = (Inl err, t)"
    "attempt_loop e canBuild maxAttempts attempt st =
       (Inl (FileSystem err), (called e st)\<lparr>working_tree := t\<rparr>)"
  | res u t where "generated e st = Inr res" "changes res \<noteq> []"
    "applyChanges (repoPath e) (changes res) (working_tree st) = (Inr u, t)" "\<not> canBuild"
    "attempt_loop e canBuild maxAttempts attempt st =
       (Inr \<lparr>success_impl = True, attempts = attempt, result = res, validation = None\<rparr>,
        (called e st)\<lparr>working_tree := t\<rparr>)"
  | res u t where "generated e st = Inr res" "changes res \<noteq> []"
    "applyChanges (repoPath e) (changes res) (working_tree st) = (Inr u, t)" "canBuild"
    "success (built e st t)"
    "attempt_loop e canBuild maxAttempts attempt st =
       (Inr \<lparr>success_impl = True, attempts = attempt, result = res,
             validation = Some (built e st t)\<rparr>,
        (called e st)\<lparr>working_tree := t, validated := validated st @ [t]\<rparr>)"
  | res u t where "generated e st = Inr res" "changes res \<noteq> []"
    "applyChanges (repoPath e) (changes res) (working_tree st) = (Inr u, t)" "canBuild"
    "\<not> success (built e st t)" "attempt < maxAttempts"
    "attempt_loop e canBuild maxAttempts attempt st =
       attempt_loop e canBuild maxAttempts (Suc attempt)
         ((called e st)\<lparr>working_tree := t, validated := validated st @ [t],
            buildErrors := Some (errors (built e st t)), previousAttempt := Some res\<rparr>)"
  | res u t where "generated e st = Inr res" "changes res \<noteq> []"
    "applyChanges (repoPath e) (changes res) (working_tree st) = (Inr u, t)" "canBuild"
    "\<not> success (built e st t)" "attempt = maxAttempts"
    "attempt_loop e canBuild maxAttempts attempt st =
       (Inr \<lparr>success_impl = False, attempts = attempt, result = res,
             validation = Some (built e st t)\<rparr>,
        (called e st)\<lparr>working_tree := t, validated := validated st @ [t]\<rparr>)"
proof -
  note defs = called_def built_def Let_def
  obtain g calls where g: "generateImplementation e (gen_calls st) = (g, calls)"
    by (cases "generateImplementation e (gen_calls st)")
  then have gen: "generated e st = g" by (simp add: generated_def)
  show thesis
  proof (cases g)
    case (Inl err)
    show thesis
      by (rule that(1) [of err], use gen Inl in simp, subst attempt_loop.simps)
         (use assms g Inl in \<open>simp add: defs\<close>)
  next
    case (Inr res)
    obtain r t where a: "applyChanges (repoPath e) (changes res) (working_tree st) = (r, t)"
      by (cases "applyChanges (repoPath e) (changes res) (working_tree st)")
    have res: "generated e st = Inr res" using gen Inr by simp
    consider
      (2) "changes res = []" "attempt = maxAttempts"
    | (3) "changes res = []" "attempt < maxAttempts"
    | (4) err where "changes res \<noteq> []" "r = Inl err"
    | (5) u where "changes res \<noteq> []" "r = Inr u" "\<not> canBuild"
    | (6) u where "changes res \<noteq> []" "r = Inr u" "canBuild" "success (built e st t)"
    | (7) u where "changes res \<noteq> []" "r = Inr u" "canBuild"
        "\<not> success (built e st t)" "attempt < maxAttempts"
    | (8) u where "changes res \<noteq> []" "r = Inr u" "canBuild"
        "\<not> success (built e st t)" "attempt = maxAttempts"
      using assms by (cases r) (auto simp: le_less)
    then show thesis
    proof cases
      case 2
      show thesis
        by (rule that(2) [of res], fact, fact, fact, subst attempt_loop.simps)
           (use g Inr 2 in \<open>simp add: defs\<close>)
    next
      case 3
      show thesis
        by (rule that(3) [of res], fact, fact, fact, subst attempt_loop.simps)
           (use g Inr 3 in \<open>simp add: defs\<close>)
    next
      case 4
      show thesis
        by (rule that(4) [of res err t], fact, fact, use a 4 in simp, subst attempt_loop.simps)
           (use assms g Inr a 4 in \<open>simp add: defs\<close>)
    next
      case 5
      show thesis
        by (rule that(5) [of res u t], fact, fact, use a 5 in simp, fact, subst attempt_loop.simps)
           (use assms g Inr a 5 in \<open>simp add: defs\<close>)
    next
      case 6
      show thesis
        by (rule that(6) [of res u t], fact, fact, use a 6 in simp, fact, fact,
              subst attempt_loop.simps)
           (use assms g Inr a 6 in \<open>simp add: defs\<close>)
    next
      case 7
      show thesis
        by (rule that(7) [of res u t], fact, fact, use a 7 in simp, fact, fact, fact,
              subst attempt_loop.simps)
           (use assms g Inr a 7 in \<open>simp add: defs\<close>)
    next
      case 8
      show thesis
        by (rule that(8) [of res u t], fact, fact, use a 8 in simp, fact, fact, fact,
              subst attempt_loop.simps)
           (use assms g Inr a 8 in \<open>simp add: defs\<close>)
    qed
  qed
qed

lemma called_simps [simp]:
  "validated (called e st) = validated st"
  "working_tree (called e st) = working_tree st"
  "buildErrors (called e st) = buildErrors st"
  "previousAttempt (called e st) = previousAttempt st"
  by (simp_all add: called_def)

text \<open>One call of \<open>generateImplementation\<close> calls the model at most once, and once when it succeeds.\<close>

lemma generateImplementation_calls:
  "snd (generateImplementation e n) \<le> Suc n"
  "fst (generateImplementation e n) = Inr res \<Longrightarrow> snd (generateImplementation e n) = Suc n"
  by (auto simp: generateImplementation_def split: option.splits sum.splits)

lemma gen_calls_called:
  "gen_calls (called e st) \<le> Suc (gen_calls st)"
  "generated e st = Inr res \<Longrightarrow> gen_calls (called e st) = Suc (gen_calls st)"
  using generateImplementation_calls [of e "gen_calls st"]
  by (simp_all add: called_def generated_def)


subsection \<open>The budget and the outcomes of a run\<close>




lemma attempt_loop_validated:
  "\<exists>more. validated (snd (attempt_loop e cb k attempt st)) = validated st @ more"
proof (induction "Suc k - attempt" arbitrary: attempt st)
  case 0
  then have "\<not> attempt \<le> k" by simp
  then show ?case by (subst attempt_loop.simps) simp
next
  case (Suc n)
  then have le: "attempt \<le> k" and n: "n = Suc k - Suc attempt" by simp_all
  from le show ?case
  proof (cases rule: attempt_loop_cases [where e = e and st = st and canBuild = cb])
    case (Empty_next res)
    with Suc.hyps(1) [OF n, of "called e st"] show ?thesis by simp
  next
    case (Failed_next res u t)
    with Suc.hyps(1) [OF n, of "(called e st)\<lparr>working_tree := t, validated := validated st @ [t],
            buildErrors := Some (errors (built e st t)), previousAttempt := Some res\<rparr>"]
    show ?thesis by auto
  qed auto
qed

text \<open>Attempts that generate no change are skipped without any other effect.\<close>

lemma attempt_loop_skip:
  "attempt + n \<le> k \<Longrightarrow>
   \<forall>m < n. \<exists>res. fst (generateImplementation e (gen_calls st + m)) = Inr res \<and> changes res = [] \<Longrightarrow>
   attempt_loop e cb k attempt st =
     attempt_loop e cb k (attempt + n) (st\<lparr>gen_calls := gen_calls st + n\<rparr>)"
proof (induction n arbitrary: attempt st)
  case 0
  then show ?case by simp
next
  case (Suc n)
  then have lt: "attempt < k" by simp
  from Suc.prems(2) obtain res where
    e0: "fst (generateImplementation e (gen_calls st)) = Inr res" "changes res = []"
    by force
  have c: "snd (generateImplementation e (gen_calls st)) = Suc (gen_calls st)"
    using generateImplementation_calls(2) [OF e0(1)] .
  have cs: "called e st = st\<lparr>gen_calls := Suc (gen_calls st)\<rparr>" by (simp add: called_def c)
  have "attempt \<le> k" using lt by simp
  then have "attempt_loop e cb k attempt st = attempt_loop e cb k (Suc attempt) (called e st)"
  proof (cases rule: attempt_loop_cases [where e = e and st = st and canBuild = cb])
    case (Empty_next res')
    then show ?thesis by simp
  qed (use e0 lt in \<open>auto simp: generated_def\<close>)
  also have "\<dots> = attempt_loop e cb k (Suc attempt + n)
      ((called e st)\<lparr>gen_calls := gen_calls (called e st) + n\<rparr>)"
  proof (rule Suc.IH)
    show "Suc attempt + n \<le> k" using Suc.prems(1) by simp
    show "\<forall>m<n. \<exists>res. fst (generateImplementation e (gen_calls (called e st) + m)) = Inr res \<and>
        changes res = []"
      using Suc.prems(2) by (auto simp: cs dest: Suc_mono)
  qed
  finally show ?case by (simp add: cs)
qed

subsection \<open>Sample responses and collaborators\<close>

definition text_create_A :: string where
  "text_create_A =
     ''### FILE: A.swift\<newline>### ACTION: create\<newline>```swift\<newline>bad\<newline>```\<newline>''"

definition text_create_B :: string where
  "text_create_B =
     ''### FILE: B.swift\<newline>### ACTION: create\<newline>```swift\<newline>good\<newline>```\<newline>''"

definition text_delete_old :: string where
  "text_delete_old = ''### FILE: Old.swift\<newline>### ACTION: delete\<newline>```\<newline>```\<newline>''"

text \<open>A build tool that is installed and reports a compiler error on every run.\<close>

definition failing_build :: "nat \<Rightarrow> fs \<Rightarrow> exec_result" where
  "failing_build n t = Rejected ''Command failed: xcodebuild'' [] ''A.swift:1:1: error: bad''"

text \<open>
  A run on the checkout at \<open>/repo\<close>, for an issue with a description, where no request
  to the issue tracker or to the model is rejected: the model answers with the given
  texts.
\<close>

definition env_of :: "exec_result \<Rightarrow> (nat \<Rightarrow> string) \<Rightarrow> env" where
  "env_of which answers =
     \<lparr>repoPath = ''/repo'',
      description = Some ''Fix the build'',
      labels = (\<lambda>n. None),
      claude = (\<lambda>n. Inr (answers n)),
      which_xcodebuild = which,
      xcodebuild = failing_build\<rparr>"

definition env_two_attempts :: env where
  "env_two_attempts =
     env_of (Resolved ''/usr/bin/xcodebuild'' []) (\<lambda>n. if n = 0 then text_create_A else text_create_B)"


text \<open>No build tool: \<open>which xcodebuild\<close> fails.\<close>

definition env_unavailable :: "(nat \<Rightarrow> string) \<Rightarrow> env" where
  "env_unavailable answers = env_of (Rejected ''Command failed: which xcodebuild'' [] []) answers"

definition second_answer :: "nat \<Rightarrow> string" where
  "second_answer n = (if n = 0 then ''No file blocks here.'' else text_create_A)"

definition always_delete :: "nat \<Rightarrow> string" where
  "always_delete n = text_delete_old"

lemma generateImplementation_env_of:
  "generateImplementation (env_of which answers) n = (Inr (codeGenerationResult (answers n)), Suc n)"
  by (simp add: generateImplementation_def env_of_def gatherContext_def)

lemma changes_create_A:
  "changes (codeGenerationResult text_create_A) =
     [\<lparr>filePath = ''A.swift'', action = Create, content = Some ''bad\<newline>'', originalContent = None\<rparr>]"
  by code_simp

lemma changes_create_B:
  "changes (codeGenerationResult text_create_B) =
     [\<lparr>filePath = ''B.swift'', action = Create, content = Some ''good\<newline>'', originalContent = None\<rparr>]"
  by code_simp

lemma changes_delete_old:
  "changes (codeGenerationResult text_delete_old) =
     [\<lparr>filePath = ''Old.swift'', action = Delete, content = Some [], originalContent = None\<rparr>]"
  by code_simp

lemma changes_no_blocks: "changes (codeGenerationResult ''No file blocks here.'') = []"
  by code_simp




text \<open>
  Claim C2, as stated, fails: attempt 1 creates \<open>A.swift\<close> and fails the build, attempt 2
  creates \<open>B.swift\<close> only. The file system the second build runs on still holds \<open>A.swift\<close>
  with the content of attempt 1, although the baseline has no such file and the change
  set of attempt 2, applied to the baseline, would not create it.
\<close>

theorem attempts_compound_counterexample:
  "file_at (validated (snd (implementWithValidation env_two_attempts 2 (initial_state (checkout [])))) ! 1)
     [''repo'', ''A.swift''] = Some ''bad\<newline>'' \<and>
   file_at (checkout []) [''repo'', ''A.swift''] = None \<and>
   file_at (snd (applyChanges ''/repo'' (changes (codeGenerationResult text_create_B)) (checkout [])))
     [''repo'', ''A.swift''] = None"
  by code_simp

text \<open>
  Claim C2, amended. The working tree is never reset between attempts. If attempt 1
  applies its change set to the baseline and fails validation, and attempt 2 applies its
  change set, then the file system the second validation runs on is the baseline with
  the change set of attempt 1 applied and the change set of attempt 2 applied on top of
  it: at every location that attempt 2 does not name, a path naming the location that
  \<open>path.join(repoPath, filePath)\<close> leads to, the file is as attempt 1 left it, and so is
  whatever is there, unless it is a directory that attempt 2 made on its way to a file.
\<close>

theorem attempts_compound:
  assumes "isXcodebuildAvailable (which_xcodebuild e)" and "2 \<le> k"
    and "fst (generateImplementation e 0) = Inr r1" and "changes r1 \<noteq> []"
    and "applyChanges (repoPath e) (changes r1) t = (Inr u1, t1)"
    and "\<not> success (validateBuild (xcodebuild e 0 t1))"
    and "fst (generateImplementation e 1) = Inr r2" and "changes r2 \<noteq> []"
    and "applyChanges (repoPath e) (changes r2) t1 = (Inr u2, t2)"
  shows "take 2 (validated (snd (implementWithValidation e k (initial_state t)))) = [t1, t2] \<and>
     (\<forall>p. (\<forall>change \<in> set (changes r2). location (repoPath e) t1 change \<noteq> p) \<longrightarrow>
        file_at t2 p = file_at t1 p \<and>
        (nodes t2 p = nodes t1 p \<or>
         (nodes t1 p = None \<and> nodes t2 p = Some Dir \<and>
            (\<exists>change \<in> set (changes r2). action change \<noteq> Delete \<and>
               p \<in> set (parents (repoPath e) t1 change)))))"
proof -
  define s0 where "s0 = initial_state t"
  have s0: "gen_calls s0 = 0" "validated s0 = []" "working_tree s0 = t"
    by (simp_all add: s0_def initial_state_def)
  have g0: "generated e s0 = Inr r1"
    and b0: "built e s0 t1 = validateBuild (xcodebuild e 0 t1)"
    using assms(3) by (simp_all add: generated_def built_def s0)
  define s1 where "s1 = (called e s0)\<lparr>working_tree := t1, validated := validated s0 @ [t1],
     buildErrors := Some (errors (built e s0 t1)), previousAttempt := Some r1\<rparr>"
  have s1: "gen_calls s1 = Suc 0" "validated s1 = [t1]" "working_tree s1 = t1"
    using gen_calls_called(2) [OF g0] by (simp_all add: s1_def s0)
  have g1: "generated e s1 = Inr r2"
    and b1: "built e s1 t2 = validateBuild (xcodebuild e 1 t2)"
    using assms(7) by (simp_all add: generated_def built_def s1)
  have "Suc 0 \<le> k" using assms(2) by simp
  then have first: "attempt_loop e True k (Suc 0) s0 = attempt_loop e True k (Suc (Suc 0)) s1"
  proof (cases rule: attempt_loop_cases [where e = e and st = s0 and canBuild = True])
    case (Failed_next res u t')
    with assms(5) g0 have "res = r1" "t' = t1" by (simp_all add: s0)
    with Failed_next(7) show ?thesis by (simp add: s1_def)
  qed (use assms g0 b0 s0 in auto)
  have "Suc (Suc 0) \<le> k" using assms(2) by simp
  then have "\<exists>more. validated (snd (attempt_loop e True k (Suc (Suc 0)) s1)) = [t1, t2] @ more"
  proof (cases rule: attempt_loop_cases [where e = e and st = s1 and canBuild = True])
    case (Passed res u t')
    with assms(9) g1 have "t' = t2" by (simp add: s1)
    with Passed(6) show ?thesis by (simp add: s1)
  next
    case (Failed_next res u t')
    with assms(9) g1 have t': "t' = t2" by (simp add: s1)
    obtain more where "validated (snd (attempt_loop e True k (Suc (Suc (Suc 0)))
         ((called e s1)\<lparr>working_tree := t', validated := validated s1 @ [t'],
            buildErrors := Some (errors (built e s1 t')), previousAttempt := Some res\<rparr>)))
       = validated ((called e s1)\<lparr>working_tree := t', validated := validated s1 @ [t'],
            buildErrors := Some (errors (built e s1 t')), previousAttempt := Some res\<rparr>)
         @ more"
      using attempt_loop_validated by blast
    with Failed_next(7) t' show ?thesis by (simp add: s1)
  next
    case (Failed_last res u t')
    with assms(9) g1 have "t' = t2" by (simp add: s1)
    with Failed_last(7) show ?thesis by (simp add: s1)
  qed (use assms g1 s1 in auto)
  then have "take 2 (validated (snd (implementWithValidation e k (initial_state t)))) = [t1, t2]"
    using assms(1) first by (auto simp: implementWithValidation_def s0_def)
  moreover have "file_at t2 p = file_at t1 p \<and>
        (nodes t2 p = nodes t1 p \<or>
         (nodes t1 p = None \<and> nodes t2 p = Some Dir \<and>
            (\<exists>change \<in> set (changes r2). action change \<noteq> Delete \<and>
               p \<in> set (parents (repoPath e) t1 change))))"
    if "\<forall>change \<in> set (changes r2). location (repoPath e) t1 change \<noteq> p" for p
  proof -
    note f = applyChanges_frame [OF assms(9) that]
    then have "file_at t2 p = file_at t1 p" by (auto simp: file_at_def)
    with f show ?thesis by simp
  qed
  ultimately show ?thesis by simp
qed

theorem attempts_compound_witness:
  "isXcodebuildAvailable (which_xcodebuild env_two_attempts) \<and>
   fst (applyChanges ''/repo'' (changes (codeGenerationResult text_create_A)) (checkout [])) = Inr () \<and>
   location ''/repo'' (checkout [])
     \<lparr>filePath = ''B.swift'', action = Create, content = Some ''good\<newline>'', originalContent = None\<rparr>
     = [''repo'', ''B.swift''] \<and>
   length (validated (snd (implementWithValidation env_two_attempts 2 (initial_state (checkout []))))) = 2 \<and>
   file_at (validated (snd (implementWithValidation env_two_attempts 2 (initial_state (checkout [])))) ! 0)
     [''repo'', ''A.swift''] = Some ''bad\<newline>'' \<and>
   file_at (validated (snd (implementWithValidation env_two_attempts 2 (initial_state (checkout [])))) ! 1)
     [''repo'', ''A.swift''] = Some ''bad\<newline>''"
proof -
  let ?e = env_two_attempts
  let ?run = "implementWithValidation ?e 2 (initial_state (checkout []))"
  let ?cA = "changes (codeGenerationResult text_create_A)"
  let ?cB = "changes (codeGenerationResult text_create_B)"
  obtain u1 t1 where a1: "applyChanges ''/repo'' ?cA (checkout []) = (u1, t1)"
    by (cases "applyChanges ''/repo'' ?cA (checkout [])")
  obtain u2 t2 where a2: "applyChanges ''/repo'' ?cB t1 = (u2, t2)"
    by (cases "applyChanges ''/repo'' ?cB t1")
  have ok1: "fst (applyChanges ''/repo'' ?cA (checkout [])) = Inr ()" by code_simp
  have ok2: "fst (applyChanges ''/repo'' ?cB (snd (applyChanges ''/repo'' ?cA (checkout [])))) = Inr ()"
    by code_simp
  have u1: "u1 = Inr ()" using ok1 a1 by simp
  have u2: "u2 = Inr ()" using ok2 a1 a2 by simp
  have 1: "isXcodebuildAvailable (which_xcodebuild ?e)"
    by (simp add: env_two_attempts_def env_of_def isXcodebuildAvailable_def)
  have rp: "repoPath ?e = ''/repo''" by (simp add: env_two_attempts_def env_of_def)
  have g0: "fst (generateImplementation ?e 0) = Inr (codeGenerationResult text_create_A)"
    and g1: "fst (generateImplementation ?e 1) = Inr (codeGenerationResult text_create_B)"
    by (simp_all add: env_two_attempts_def generateImplementation_env_of)
  have n0: "?cA \<noteq> []" by (simp add: changes_create_A)
  have n1: "?cB \<noteq> []" by (simp add: changes_create_B)
  have f: "\<not> success (validateBuild (xcodebuild ?e 0 t1))"
    by (simp add: env_two_attempts_def env_of_def failing_build_def validateBuild_def Let_def)
  have l: "location ''/repo'' (checkout [])
     \<lparr>filePath = ''B.swift'', action = Create, content = Some ''good\<newline>'', originalContent = None\<rparr>
     = [''repo'', ''B.swift'']" by code_simp
  have c1: "cwd t1 = cwd (checkout [])" using applyChanges_cwd [OF a1] .
  have unnamed: "\<forall>change \<in> set ?cB. location (repoPath ?e) t1 change \<noteq> [''repo'', ''A.swift'']"
    by (simp add: changes_create_B rp location_cwd [OF c1] l)
  have A1: "file_at t1 [''repo'', ''A.swift''] = Some ''bad\<newline>''"
  proof -
    have "file_at (snd (applyChanges ''/repo'' ?cA (checkout []))) [''repo'', ''A.swift''] = Some ''bad\<newline>''"
      by code_simp
    with a1 show ?thesis by simp
  qed
  from attempts_compound [of ?e 2 "codeGenerationResult text_create_A" "checkout []" "()" t1
      "codeGenerationResult text_create_B" "()" t2] 1 g0 g1 n0 n1 f a1 a2 u1 u2 rp unnamed
  have v: "take 2 (validated (snd ?run)) = [t1, t2]"
    and same: "file_at t2 [''repo'', ''A.swift''] = file_at t1 [''repo'', ''A.swift'']"
    by simp_all
  have len: "length (validated (snd ?run)) = 2" by code_simp
  with v have "validated (snd ?run) = [t1, t2]" by simp
  with A1 same len 1 ok1 l show ?thesis by simp
qed

text \<open>
  Claim C5, as stated, fails: no build tool is installed and the first attempt produces
  a change set, a delete of a file that the working tree does not hold. The run ends
  with the error of \<open>applyChanges\<close>, not with an accepted result.
\<close>

theorem unavailable_accepts_counterexample:
  "\<not> isXcodebuildAvailable (which_xcodebuild (env_unavailable always_delete)) \<and>
   map_sum id changes (fst (generateImplementation (env_unavailable always_delete) 0)) =
     Inr [\<lparr>filePath = ''Old.swift'', action = Delete, content = Some [], originalContent = None\<rparr>] \<and>
   fst (implementWithValidation (env_unavailable always_delete) 3 (initial_state (checkout []))) =
     Inl (FileSystem (ENOENT ''/repo/Old.swift''))"
  by code_simp

text \<open>
  Claim C5, amended. When \<open>which xcodebuild\<close> fails, and attempt \<open>n + 1\<close> is the first
  within the budget that produces a change set, and \<open>applyChanges\<close> completes on it, the
  run ends on that attempt with \<open>success = true\<close> and no validation result, after
  \<open>n + 1\<close> generation calls, with the change set applied and without any build.
\<close>

theorem unavailable_accepts:
  assumes "\<not> isXcodebuildAvailable (which_xcodebuild e)" and "n < k"
    and "\<forall>m < n. \<exists>res. fst (generateImplementation e m) = Inr res \<and> changes res = []"
    and "fst (generateImplementation e n) = Inr r" and "changes r \<noteq> []"
    and "applyChanges (repoPath e) (changes r) t = (Inr u, t')"
  shows "implementWithValidation e k (initial_state t) =
     (Inr \<lparr>success_impl = True, attempts = Suc n, result = r, validation = None\<rparr>,
      \<lparr>working_tree = t', buildErrors = None, previousAttempt = None, gen_calls = Suc n,
        validated = []\<rparr>)"
proof -
  define s0 where "s0 = initial_state t"
  define sn where "sn = s0\<lparr>gen_calls := gen_calls s0 + n\<rparr>"
  have s0: "gen_calls s0 = 0" by (simp add: s0_def initial_state_def)
  have sn: "gen_calls sn = n" "working_tree sn = t" by (simp_all add: sn_def s0_def initial_state_def)
  have rn: "generated e sn = Inr r" using assms(4) by (simp add: generated_def sn)
  have cn: "called e sn = sn\<lparr>gen_calls := Suc n\<rparr>"
    using gen_calls_called(2) [OF rn] by (simp add: called_def sn)
  have "attempt_loop e False k (Suc 0) s0 = attempt_loop e False k (Suc 0 + n) sn"
    unfolding sn_def using assms(2,3) by (intro attempt_loop_skip) (simp_all add: s0)
  also have "Suc 0 + n \<le> k" using assms(2) by simp
  then have "attempt_loop e False k (Suc 0 + n) sn =
     (Inr \<lparr>success_impl = True, attempts = Suc n, result = r, validation = None\<rparr>,
      (called e sn)\<lparr>working_tree := t'\<rparr>)"
  proof (cases rule: attempt_loop_cases [where e = e and st = sn and canBuild = False])
    case (Unavailable res u1 t1)
    with assms(6) rn have "res = r" "t1 = t'" by (simp_all add: sn)
    with Unavailable(5) show ?thesis by simp
  qed (use assms rn sn in auto)
  finally have "attempt_loop e False k (Suc 0) s0 =
     (Inr \<lparr>success_impl = True, attempts = Suc n, result = r, validation = None\<rparr>,
      sn\<lparr>gen_calls := Suc n, working_tree := t'\<rparr>)"
    unfolding cn by simp
  then show ?thesis
    using assms(1) by (simp add: implementWithValidation_def s0_def sn_def initial_state_def)
qed

theorem unavailable_accepts_witness:
  "\<not> isXcodebuildAvailable (which_xcodebuild (env_unavailable second_answer)) \<and>
   map_sum id changes (fst (generateImplementation (env_unavailable second_answer) 0)) = Inr [] \<and>
   fst (implementWithValidation (env_unavailable second_answer) 3 (initial_state (checkout []))) =
     Inr \<lparr>success_impl = True, attempts = 2, result = codeGenerationResult text_create_A,
          validation = None\<rparr> \<and>
   gen_calls (snd (implementWithValidation (env_unavailable second_answer) 3 (initial_state (checkout []))))
     = 2 \<and>
   validated (snd (implementWithValidation (env_unavailable second_answer) 3 (initial_state (checkout []))))
     = [] \<and>
   file_at (working_tree (snd (implementWithValidation (env_unavailable second_answer) 3
       (initial_state (checkout []))))) [''repo'', ''A.swift''] = Some ''bad\<newline>''"
proof -
  let ?e = "env_unavailable second_answer"
  let ?cA = "changes (codeGenerationResult text_create_A)"
  have 1: "\<not> isXcodebuildAvailable (which_xcodebuild ?e)"
    by (simp add: env_unavailable_def env_of_def isXcodebuildAvailable_def)
  have rp: "repoPath ?e = ''/repo''" by (simp add: env_unavailable_def env_of_def)
  have g0: "fst (generateImplementation ?e 0) = Inr (codeGenerationResult ''No file blocks here.'')"
    and g1: "fst (generateImplementation ?e 1) = Inr (codeGenerationResult text_create_A)"
    by (simp_all add: env_unavailable_def generateImplementation_env_of second_answer_def)
  have c0: "map_sum id changes (fst (generateImplementation ?e 0)) = Inr []"
    by (simp add: g0 changes_no_blocks)
  have 3: "\<forall>m < 1. \<exists>res. fst (generateImplementation ?e m) = Inr res \<and> changes res = []"
    by (simp add: g0 changes_no_blocks)
  have 4: "?cA \<noteq> []" by (simp add: changes_create_A)
  obtain u t' where a: "applyChanges ''/repo'' ?cA (checkout []) = (u, t')"
    by (cases "applyChanges ''/repo'' ?cA (checkout [])")
  have "fst (applyChanges ''/repo'' ?cA (checkout [])) = Inr ()" by code_simp
  with a have u: "u = Inr ()" by simp
  have "file_at (snd (applyChanges ''/repo'' ?cA (checkout []))) [''repo'', ''A.swift''] = Some ''bad\<newline>''"
    by code_simp
  with a have A: "file_at t' [''repo'', ''A.swift''] = Some ''bad\<newline>''" by simp
  have 5: "applyChanges (repoPath ?e) ?cA (checkout []) = (Inr (), t')" using a u rp by simp
  have 2: "(1::nat) < 3" by simp
  from unavailable_accepts [OF 1 2 3 g1 4 5] A 1 c0 show ?thesis
    by (simp add: numeral_2_eq_2)
qed

section \<open>Publisher: commitFiles (github-file-operations)\<close>

text \<open>
  The hosting service as far as \<open>commitFiles\<close> sees it: an append-only store of git
  objects, named by their position (a created object gets a fresh name and no object
  changes afterwards), and the branch heads. A tree object is flat: a map from a path to
  the name of a blob; \<open>createTree\<close> lays its entries over the base tree in order, so that
  of two entries for one path the later one stays. Any request may fail; a failed
  request leaves the repository as it was. Which requests fail is given by \<open>faults\<close>,
  over the requests of the run counted from 0.
\<close>

type_synonym sha = nat

datatype git_object =
    Blob string
  | Tree "string \<rightharpoonup> sha"
  | Commit sha "sha list" string

record github =
  refs :: "string \<rightharpoonup> sha"
  objects :: "git_object list"
  requests :: nat



definition lookup :: "github \<Rightarrow> sha \<Rightarrow> git_object option" where
  "lookup g h = (if h < length (objects g) then Some (objects g ! h) else None)"
















subsection \<open>Requests only append objects; only updateRef moves a head\<close>

definition extends :: "github \<Rightarrow> github \<Rightarrow> bool" where
  "extends g g' \<longleftrightarrow> (\<exists>more. objects g' = objects g @ more)"


lemma extends_refl [simp]: "extends g g"
  by (simp add: extends_def)


lemma extends_requests [simp]: "extends g (g'\<lparr>requests := n\<rparr>) = extends g g'"
  "extends (g\<lparr>requests := n\<rparr>) g' = extends g g'"
  by (simp_all add: extends_def)













subsection \<open>A failed publish leaves every head where it was\<close>





subsection \<open>What each request answers when it succeeds\<close>



lemma lookup_requests [simp]: "lookup (g\<lparr>requests := n\<rparr>) h = lookup g h"
  by (simp add: lookup_def)











subsection \<open>The content a change set gives to a path\<close>









subsection \<open>A successful publish\<close>


subsection \<open>A publish that no request fails\<close>












end
